(* ===== verification/LB_Prelude.thy ===== *)
theory LB_Prelude
  imports Main "HOL-Library.Word"
begin

text \<open>
  Shared vocabulary of the load-balancer development: the machine type \<open>size_t\<close> of the
  counters and cursors (64 bits, unsigned, wrapping), server identifiers, the error values
  that stand for the C++ exceptions and for undefined behaviour, the operations of
  \<open>std::vector\<close> that the strategies call (\<open>empty\<close>, \<open>size\<close>, \<open>operator[]\<close>, \<open>at\<close>) and the
  cursor advance \<open>(i + 1) % size\<close> that both round-robin strategies share. The lemmas
  relate the word-level operations to arithmetic on \<open>nat\<close>; they are collected in
  \<open>lb_word\<close> so that the component theories can hand them to the simplifier as a bundle.
  The lemmas on periodic lists and on lists updated at an index serve the theorems about
  runs of selections and about the vector of threads.
\<close>

section \<open>Fact collections\<close>

named_theorems lb_word "facts that read size_t arithmetic as arithmetic on nat"
named_theorems lb_inv "facts that establish or preserve a component invariant"

section \<open>Types\<close>

type_synonym size_t = "64 word"
type_synonym server_id = string

text \<open>
  \<open>Runtime_Error msg\<close> is a thrown \<open>std::runtime_error(msg)\<close>, \<open>Out_Of_Range\<close> the
  \<open>std::out_of_range\<close> of \<open>vector::at\<close>. \<open>Undefined_Behaviour\<close> marks executions the C++
  standard gives no meaning to (an index past the end, a remainder by zero, a dereferenced
  \<open>end()\<close> iterator); the component theories prove that no state that a constructor can
  produce reaches it.
\<close>

datatype error = Runtime_Error string | Out_Of_Range | Undefined_Behaviour

type_synonym 'a result = "error + 'a"

section \<open>The operations of std::vector used by the strategies\<close>

text \<open>
  A vector is the list of its elements. Its size is a \<open>size_t\<close>, so a real vector never has
  \<open>2 ^ 64\<close> elements or more: \<open>vector_ok\<close> is that representation bound.
\<close>

definition vector_ok :: "'a list \<Rightarrow> bool" where
  "vector_ok xs \<longleftrightarrow> length xs < 2 ^ 64"

definition vector_empty :: "'a list \<Rightarrow> bool" where
  "vector_empty xs \<longleftrightarrow> xs = []"

definition vector_size :: "'a list \<Rightarrow> size_t" where
  "vector_size xs = of_nat (length xs)"

definition vector_subscript :: "'a list \<Rightarrow> size_t \<Rightarrow> 'a result" where
  "vector_subscript xs i =
     (if unat i < length xs then Inr (xs ! unat i) else Inl Undefined_Behaviour)"

definition vector_at :: "'a list \<Rightarrow> size_t \<Rightarrow> 'a result" where
  "vector_at xs i = (if unat i < length xs then Inr (xs ! unat i) else Inl Out_Of_Range)"

text \<open>The cursor advance \<open>(i + 1) % n\<close> on \<open>size_t\<close>; a remainder by zero is undefined.\<close>

definition next_index :: "size_t \<Rightarrow> size_t \<Rightarrow> size_t result" where
  "next_index i n = (if n = 0 then Inl Undefined_Behaviour else Inr ((i + 1) mod n))"

section \<open>Words as numbers\<close>

lemma unat_of_nat_size_t [lb_word]: "n < 2 ^ 64 \<Longrightarrow> unat (of_nat n :: size_t) = n"
  by (simp add: unat_of_nat)

lemma unat_succ_below [lb_word]:
  fixes i :: size_t
  assumes "unat i < n" and "n < 2 ^ 64"
  shows "unat (i + 1) = Suc (unat i)"
proof -
  from assms have "unat i + unat (1 :: size_t) < 2 ^ LENGTH(64)" by simp
  then have "unat (i + 1) = unat i + unat (1 :: size_t)" by (simp only: unat_add_lem)
  then show ?thesis by simp
qed

lemma unat_succ_mod [lb_word]:
  fixes i :: size_t
  shows "unat i < n \<Longrightarrow> n < 2 ^ 64 \<Longrightarrow> unat ((i + 1) mod of_nat n) = Suc (unat i) mod n"
  by (simp add: unat_mod unat_of_nat_size_t unat_succ_below)

lemma unat_pred [lb_word]: "(w :: size_t) \<noteq> 0 \<Longrightarrow> unat (w - 1) = unat w - 1"
  by (simp add: unat_minus_one)

lemma unat_minus_1 [lb_word]: "unat (- 1 :: size_t) = 2 ^ 64 - 1"
  by (simp add: unsigned_minus_1_eq_mask mask_eq_exp_minus_1)

lemma size_t_le_zero [simp]: "(w :: size_t) \<le> 0 \<longleftrightarrow> w = 0"
  by simp

lemma size_t_pos_iff: "0 < unat (w :: size_t) \<longleftrightarrow> w \<noteq> 0"
  by (simp add: unat_gt_0)

section \<open>Periodic lists\<close>

text \<open>Unfolding a numeral count one step, for the evaluation of closed instances.\<close>

lemma replicate_numeral: "replicate (numeral k) x = x # replicate (pred_numeral k) x"
  by (simp add: numeral_eq_Suc)

lemma nth_concat_replicate:
  "i < k * length xs \<Longrightarrow> concat (replicate k xs) ! i = xs ! (i mod length xs)"
proof (induction k arbitrary: i)
  case 0
  then show ?case by simp
next
  case (Suc k)
  show ?case
  proof (cases "i < length xs")
    case True
    then show ?thesis by (simp add: nth_append)
  next
    case False
    with Suc.prems have "i - length xs < k * length xs" by simp
    then have "concat (replicate k xs) ! (i - length xs) = xs ! ((i - length xs) mod length xs)"
      by (rule Suc.IH)
    with False show ?thesis by (simp add: nth_append le_mod_geq)
  qed
qed

lemma take_concat_replicate:
  assumes "m \<le> k * length xs"
  shows "take m (concat (replicate k xs)) = map (\<lambda>i. xs ! (i mod length xs)) [0..<m]"
proof (rule nth_equalityI)
  show "length (take m (concat (replicate k xs))) =
      length (map (\<lambda>i. xs ! (i mod length xs)) [0..<m])"
    using assms by (simp add: length_concat sum_list_replicate)
next
  fix i
  assume "i < length (take m (concat (replicate k xs)))"
  then have "i < m" by simp
  with assms show "take m (concat (replicate k xs)) ! i =
      map (\<lambda>i. xs ! (i mod length xs)) [0..<m] ! i"
    by (simp add: nth_concat_replicate)
qed

section \<open>Lists updated at an index\<close>

text \<open>Counting and summing over a list in which one element is replaced.\<close>

lemma length_filter_update:
  "j < length xs \<Longrightarrow>
   length (filter P (xs[j := y])) + (if P (xs ! j) then 1 else 0) =
   length (filter P xs) + (if P y then 1 else 0)"
proof (induction xs arbitrary: j)
  case Nil
  then show ?case by simp
next
  case (Cons x xs)
  then show ?case by (cases j) auto
qed

lemma sum_list_map_update:
  fixes f :: "'a \<Rightarrow> nat"
  shows "j < length xs \<Longrightarrow>
    sum_list (map f (xs[j := y])) + f (xs ! j) = sum_list (map f xs) + f y"
proof (induction xs arbitrary: j)
  case Nil
  then show ?case by simp
next
  case (Cons x xs)
  then show ?case by (cases j) auto
qed

lemma length_filter_le_length: "length (filter P xs) \<le> length xs"
  by simp

section \<open>Vectors\<close>

lemma vector_ok_Nil [simp]: "vector_ok []"
  by (simp add: vector_ok_def)

lemma unat_vector_size [lb_word]: "vector_ok xs \<Longrightarrow> unat (vector_size xs) = length xs"
  by (simp add: vector_ok_def vector_size_def unat_of_nat_size_t)

lemma vector_size_eq_0 [lb_word]: "vector_ok xs \<Longrightarrow> vector_size xs = 0 \<longleftrightarrow> xs = []"
proof -
  assume ok: "vector_ok xs"
  have "vector_size xs = 0 \<longleftrightarrow> unat (vector_size xs) = 0"
    by (simp add: unat_eq_0)
  with ok show ?thesis by (simp add: unat_vector_size)
qed

lemma vector_subscript_in_range [simp]:
  "unat i < length xs \<Longrightarrow> vector_subscript xs i = Inr (xs ! unat i)"
  by (simp add: vector_subscript_def)

lemma vector_subscript_out_of_range [simp]:
  "length xs \<le> unat i \<Longrightarrow> vector_subscript xs i = Inl Undefined_Behaviour"
  by (simp add: vector_subscript_def)

lemma vector_at_in_range [simp]: "unat i < length xs \<Longrightarrow> vector_at xs i = Inr (xs ! unat i)"
  by (simp add: vector_at_def)

lemma vector_at_0 [simp]: "xs \<noteq> [] \<Longrightarrow> vector_at xs 0 = Inr (hd xs)"
  by (cases xs) (simp_all add: vector_at_def)

text \<open>
  The advance of a cursor that is in range of a real vector: it is defined, it stays in
  range, and it is the successor modulo the length; the addition itself never wraps.
\<close>

lemma next_index_in_range:
  assumes "vector_ok xs" and "unat i < length xs"
  shows "next_index i (vector_size xs) = Inr ((i + 1) mod vector_size xs)"
    and "unat ((i + 1) mod vector_size xs) = Suc (unat i) mod length xs"
    and "unat ((i + 1) mod vector_size xs) < length xs"
proof -
  from assms have ne: "xs \<noteq> []" by auto
  with assms(1) show "next_index i (vector_size xs) = Inr ((i + 1) mod vector_size xs)"
    by (simp add: next_index_def vector_size_eq_0)
  from assms show eq: "unat ((i + 1) mod vector_size xs) = Suc (unat i) mod length xs"
    by (simp add: vector_size_def vector_ok_def unat_succ_mod)
  from ne show "unat ((i + 1) mod vector_size xs) < length xs"
    by (simp add: eq)
qed

lemma next_index_empty [simp]: "next_index i (vector_size []) = Inl Undefined_Behaviour"
  by (simp add: next_index_def vector_size_def)

end
