(* ===== verification/Interface.thy ===== *)
theory Interface
  imports LB_Prelude
begin

text \<open>
  The abstract base class \<open>ILoadBalancer\<close> and its clients. The class is a table of
  operations over a state type \<open>'s\<close> (the object's fields): \<open>roundrobinalgo.cpp\<close> declares
  \<open>GetNextServer\<close> alone, \<open>leastconnecitonalgo.cpp\<close> adds \<open>OnRequestStarted\<close> and
  \<open>OnRequestFinished\<close>, which is a record extension here. A client is written against the
  table only: \<open>calls\<close> is the loop of \<open>main\<close> that asks for the next server \<open>n\<close> times. The
  contract \<open>implements\<close> says what a client may rely on; \<open>RoundRobin\<close> and
  \<open>WeightRoundRobin\<close> prove it for their tables, and the lemmas of this theory lift it to
  whole runs. For \<open>LeastConnection\<close> the selection theorem of its theory says more: the
  server returned has a minimal count.
\<close>

section \<open>The class as a table of operations\<close>

record 's ILoadBalancer =
  GetNextServer :: "'s \<Rightarrow> (server_id \<times> 's) result"

record 's ILoadBalancer_tracking = "'s ILoadBalancer" +
  OnRequestStarted :: "server_id \<Rightarrow> 's \<Rightarrow> 's"
  OnRequestFinished :: "server_id \<Rightarrow> 's \<Rightarrow> 's"

text \<open>
  The notifications return \<open>void\<close> and throw nothing, so they are functions on the state.
  A sequence of notifications is a list of events; \<open>notify_all\<close> delivers them in order.
\<close>

datatype lb_event = Started server_id | Finished server_id

primrec notify :: "('s, 'm) ILoadBalancer_tracking_scheme \<Rightarrow> lb_event \<Rightarrow> 's \<Rightarrow> 's" where
  "notify lb (Started server) s = OnRequestStarted lb server s"
| "notify lb (Finished server) s = OnRequestFinished lb server s"

definition notify_all :: "('s, 'm) ILoadBalancer_tracking_scheme \<Rightarrow> lb_event list \<Rightarrow> 's \<Rightarrow> 's" where
  "notify_all lb es s = fold (notify lb) es s"

section \<open>A client: repeated selection\<close>

text \<open>
  \<open>calls lb n s\<close> performs \<open>n\<close> consecutive \<open>GetNextServer\<close> calls on the object in state
  \<open>s\<close> and returns the servers in call order with the final state; an error of a call
  ends the run, as the exception or the undefined behaviour would.
\<close>

fun calls :: "('s, 'm) ILoadBalancer_scheme \<Rightarrow> nat \<Rightarrow> 's \<Rightarrow> (server_id list \<times> 's) result" where
  "calls lb 0 s = Inr ([], s)"
| "calls lb (Suc n) s =
     (case GetNextServer lb s of
        Inl e \<Rightarrow> Inl e
      | Inr (x, s') \<Rightarrow>
          (case calls lb n s' of
             Inl e \<Rightarrow> Inl e
           | Inr (xs, s'') \<Rightarrow> Inr (x # xs, s'')))"

section \<open>The contract\<close>

text \<open>
  \<open>implements I pool lb\<close>: in every state that satisfies the invariant \<open>I\<close>,
  \<open>GetNextServer\<close> returns a server of the state's pool, and the next state satisfies the
  invariant and has the same pool.
\<close>

definition implements ::
  "('s \<Rightarrow> bool) \<Rightarrow> ('s \<Rightarrow> server_id set) \<Rightarrow> ('s, 'm) ILoadBalancer_scheme \<Rightarrow> bool" where
  "implements I pool lb \<longleftrightarrow>
     (\<forall>s. I s \<longrightarrow>
        (\<exists>x s'. GetNextServer lb s = Inr (x, s') \<and> I s' \<and> x \<in> pool s \<and> pool s' = pool s))"

lemma implementsI:
  assumes "\<And>s. I s \<Longrightarrow>
    \<exists>x s'. GetNextServer lb s = Inr (x, s') \<and> I s' \<and> x \<in> pool s \<and> pool s' = pool s"
  shows "implements I pool lb"
  using assms by (simp add: implements_def)

lemma implementsE:
  assumes "implements I pool lb" and "I s"
  obtains x s' where "GetNextServer lb s = Inr (x, s')" and "I s'" and "x \<in> pool s"
    and "pool s' = pool s"
  using assms unfolding implements_def by blast

section \<open>Runs\<close>

lemma notify_all_simps [simp]:
  "notify_all lb [] s = s"
  "notify_all lb (e # es) s = notify_all lb es (notify lb e s)"
  "notify_all lb (es @ es') s = notify_all lb es' (notify_all lb es s)"
  by (simp_all add: notify_all_def)

lemma calls_Suc_Inr:
  "GetNextServer lb s = Inr (x, s') \<Longrightarrow> calls lb n s' = Inr (xs, s'') \<Longrightarrow>
   calls lb (Suc n) s = Inr (x # xs, s'')"
  by simp

lemma calls_Suc_Inl: "GetNextServer lb s = Inl e \<Longrightarrow> calls lb (Suc n) s = Inl e"
  by simp

lemma calls_numeral: "calls lb (numeral k) s = calls lb (Suc (pred_numeral k)) s"
  by (simp add: numeral_eq_Suc)

lemma calls_length: "calls lb n s = Inr (xs, s') \<Longrightarrow> length xs = n"
  by (induction n arbitrary: s xs) (auto split: sum.splits prod.splits)

text \<open>A run of \<open>m + n\<close> calls is a run of \<open>m\<close> calls followed by a run of \<open>n\<close> calls.\<close>

lemma calls_add:
  assumes "calls lb m s = Inr (xs, s')" and "calls lb n s' = Inr (ys, s'')"
  shows "calls lb (m + n) s = Inr (xs @ ys, s'')"
  using assms
proof (induction m arbitrary: s xs)
  case 0
  then show ?case by simp
next
  case (Suc m)
  from Suc.prems(1) obtain x t zs where
    step: "GetNextServer lb s = Inr (x, t)" and rest: "calls lb m t = Inr (zs, s')"
    and xs: "xs = x # zs"
    by (auto split: sum.splits prod.splits)
  from rest Suc.prems(2) have "calls lb (m + n) t = Inr (zs @ ys, s'')"
    by (rule Suc.IH)
  with step xs show ?case by simp
qed

text \<open>The first \<open>m\<close> calls of a longer run return the first \<open>m\<close> servers of its output.\<close>

lemma calls_take:
  assumes "calls lb n s = Inr (xs, s')" and "m \<le> n"
  shows "\<exists>t. calls lb m s = Inr (take m xs, t)"
  using assms
proof (induction m arbitrary: n s xs)
  case 0
  then show ?case by simp
next
  case (Suc m)
  then obtain n' where n: "n = Suc n'" and le: "m \<le> n'"
    by (cases n) auto
  from Suc.prems(1) n obtain x t zs where
    step: "GetNextServer lb s = Inr (x, t)" and rest: "calls lb n' t = Inr (zs, s')"
    and xs: "xs = x # zs"
    by (auto split: sum.splits prod.splits)
  from Suc.IH [OF rest le] obtain u where "calls lb m t = Inr (take m zs, u)" ..
  with step xs show ?case by simp
qed

text \<open>A run that repeats a state after \<open>m\<close> calls repeats its output for ever.\<close>

lemma calls_period:
  assumes "calls lb m s = Inr (xs, s)"
  shows "calls lb (k * m) s = Inr (concat (replicate k xs), s)"
proof (induction k)
  case 0
  show ?case by simp
next
  case (Suc k)
  from assms Suc.IH have "calls lb (m + k * m) s = Inr (xs @ concat (replicate k xs), s)"
    by (rule calls_add)
  then show ?case by simp
qed

text \<open>What a client of a conforming object gets from a run of any length.\<close>

lemma implements_calls:
  assumes "implements I pool lb" and "I s"
  shows "\<exists>xs s'. calls lb n s = Inr (xs, s') \<and> I s' \<and> set xs \<subseteq> pool s \<and> pool s' = pool s"
  using assms(2)
proof (induction n arbitrary: s)
  case 0
  then show ?case by simp
next
  case (Suc n)
  from assms(1) Suc.prems obtain x t where
    step: "GetNextServer lb s = Inr (x, t)" and t: "I t" and x: "x \<in> pool s"
    and pool: "pool t = pool s"
    by (rule implementsE)
  from Suc.IH [OF t] obtain xs s' where
    "calls lb n t = Inr (xs, s')" "I s'" "set xs \<subseteq> pool t" "pool s' = pool t"
    by blast
  with step x pool show ?case by simp
qed

end
