(* ===== verification/RoundRobin.thy ===== *)
theory RoundRobin
  imports Interface
begin

text \<open>
  The class \<open>RoundRobin\<close> of \<open>roundrobinalgo.cpp\<close>: the fields \<open>_servers\<close> and
  \<open>_curr_index\<close> as a record, the constructor \<open>RoundRobin_new\<close> with its empty-list
  exception, and \<open>GetNextServer\<close>. The invariant \<open>RoundRobin_inv\<close> (the cursor is inside the
  vector) is established by the constructor and kept by every call; under it a call
  returns the server at the cursor and moves the cursor to its successor modulo the pool
  size, without wrap-around of the \<open>size_t\<close> addition. From this follow the cycle property
  (the \<open>i\<close>-th call returns \<open>pool ! (i mod n)\<close>), the rotation property of any \<open>n\<close>
  consecutive calls, and the contract of \<open>Interface\<close>.
\<close>

section \<open>State and operations\<close>

record RoundRobin =
  rr_servers :: "server_id list"
  rr_curr_index :: size_t

definition RoundRobin_new :: "server_id list \<Rightarrow> RoundRobin result" where
  "RoundRobin_new servers =
     (if vector_empty servers then Inl (Runtime_Error ''empty server list'')
      else Inr \<lparr>rr_servers = servers, rr_curr_index = 0\<rparr>)"

definition RoundRobin_GetNextServer :: "RoundRobin \<Rightarrow> (server_id \<times> RoundRobin) result" where
  "RoundRobin_GetNextServer s =
     (case vector_subscript (rr_servers s) (rr_curr_index s) of
        Inl e \<Rightarrow> Inl e
      | Inr server \<Rightarrow>
          (case next_index (rr_curr_index s) (vector_size (rr_servers s)) of
             Inl e \<Rightarrow> Inl e
           | Inr i \<Rightarrow> Inr (server, s\<lparr>rr_curr_index := i\<rparr>)))"

definition RoundRobin_vtable :: "RoundRobin ILoadBalancer" where
  "RoundRobin_vtable = \<lparr>GetNextServer = RoundRobin_GetNextServer\<rparr>"

section \<open>Invariant and abstract cursor\<close>

definition RoundRobin_inv :: "RoundRobin \<Rightarrow> bool" where
  "RoundRobin_inv s \<longleftrightarrow>
     vector_ok (rr_servers s) \<and> unat (rr_curr_index s) < length (rr_servers s)"

text \<open>
  The specification of one selection over a pool and a cursor in \<open>nat\<close>, and the
  abstraction of an object to its cursor.
\<close>

definition rr_spec :: "server_id list \<Rightarrow> nat \<Rightarrow> server_id \<times> nat" where
  "rr_spec pool c = (pool ! c, Suc c mod length pool)"

definition rr_abs :: "RoundRobin \<Rightarrow> nat" where
  "rr_abs s = unat (rr_curr_index s)"

text \<open>The servers that \<open>k\<close> calls return when the cursor starts at \<open>c\<close>.\<close>

definition rr_outputs :: "server_id list \<Rightarrow> nat \<Rightarrow> nat \<Rightarrow> server_id list" where
  "rr_outputs pool c k = map (\<lambda>i. pool ! ((c + i) mod length pool)) [0..<k]"

section \<open>The constructor\<close>

lemma RoundRobin_new_Nil [simp]: "RoundRobin_new [] = Inl (Runtime_Error ''empty server list'')"
  by (simp add: RoundRobin_new_def vector_empty_def)

lemma RoundRobin_new_Cons [simp]:
  "RoundRobin_new (x # xs) = Inr \<lparr>rr_servers = x # xs, rr_curr_index = 0\<rparr>"
  by (simp add: RoundRobin_new_def vector_empty_def)

lemma RoundRobin_new_Inr:
  "RoundRobin_new pool = Inr s \<longleftrightarrow> pool \<noteq> [] \<and> s = \<lparr>rr_servers = pool, rr_curr_index = 0\<rparr>"
  by (cases pool) auto

lemma RoundRobin_new_inv [lb_inv]:
  "RoundRobin_new pool = Inr s \<Longrightarrow> vector_ok pool \<Longrightarrow> RoundRobin_inv s"
  by (auto simp: RoundRobin_new_Inr RoundRobin_inv_def)

section \<open>One call\<close>

lemma RoundRobin_GetNextServer_eq:
  assumes "RoundRobin_inv s"
  shows "RoundRobin_GetNextServer s =
    Inr (rr_servers s ! unat (rr_curr_index s),
         s\<lparr>rr_curr_index := (rr_curr_index s + 1) mod vector_size (rr_servers s)\<rparr>)"
  using assms
  by (simp add: RoundRobin_GetNextServer_def RoundRobin_inv_def next_index_in_range(1))

lemma RoundRobin_GetNextServer_inv [lb_inv]:
  assumes "RoundRobin_inv s" and "RoundRobin_GetNextServer s = Inr (x, s')"
  shows "RoundRobin_inv s'"
  using assms
  by (auto simp: RoundRobin_GetNextServer_eq RoundRobin_inv_def next_index_in_range(3))

lemma RoundRobin_GetNextServer_abs:
  assumes "RoundRobin_inv s" and "RoundRobin_GetNextServer s = Inr (x, s')"
  shows "rr_servers s' = rr_servers s"
    and "(x, rr_abs s') = rr_spec (rr_servers s) (rr_abs s)"
  using assms
  by (auto simp: RoundRobin_GetNextServer_eq RoundRobin_inv_def rr_abs_def rr_spec_def
      next_index_in_range(2))

lemma RoundRobin_GetNextServer_outside:
  assumes "length (rr_servers s) \<le> unat (rr_curr_index s)"
  shows "RoundRobin_GetNextServer s = Inl Undefined_Behaviour"
  using assms by (simp add: RoundRobin_GetNextServer_def)

section \<open>Runs\<close>

lemma rr_outputs_0 [simp]: "rr_outputs pool c 0 = []"
  by (simp add: rr_outputs_def)

lemma rr_outputs_Suc:
  "pool \<noteq> [] \<Longrightarrow>
   rr_outputs pool c (Suc k) = pool ! (c mod length pool) # rr_outputs pool (Suc c mod length pool) k"
proof -
  assume "pool \<noteq> []"
  have "map (\<lambda>i. pool ! ((c + i) mod length pool)) [0..<Suc k] =
        pool ! (c mod length pool) # map (\<lambda>i. pool ! ((c + Suc i) mod length pool)) [0..<k]"
    by (simp add: upt_conv_Cons map_Suc_upt [symmetric] del: upt_Suc)
  moreover have "(Suc c mod length pool + i) mod length pool = (c + Suc i) mod length pool" for i
    by (simp add: mod_add_left_eq mod_Suc_eq)
  ultimately show ?thesis
    by (simp add: rr_outputs_def)
qed

lemma length_rr_outputs [simp]: "length (rr_outputs pool c k) = k"
  by (simp add: rr_outputs_def)

lemma rr_outputs_rotate: "rr_outputs pool c (length pool) = rotate c pool"
  by (rule nth_equalityI) (simp_all add: rr_outputs_def nth_rotate)

text \<open>
  The run lemma: from a state that satisfies the invariant, \<open>k\<close> calls return
  \<open>rr_outputs\<close> from the current cursor and leave the cursor \<open>k\<close> places further.
\<close>

lemma RoundRobin_calls:
  assumes "RoundRobin_inv s"
  shows "\<exists>s'. calls RoundRobin_vtable k s =
           Inr (rr_outputs (rr_servers s) (rr_abs s) k, s')
         \<and> RoundRobin_inv s' \<and> rr_servers s' = rr_servers s
         \<and> rr_abs s' = (rr_abs s + k) mod length (rr_servers s)"
  using assms
proof (induction k arbitrary: s)
  case 0
  then show ?case by (simp add: RoundRobin_inv_def rr_abs_def)
next
  case (Suc k)
  let ?n = "length (rr_servers s)"
  from Suc.prems have ne: "rr_servers s \<noteq> []" and lt: "rr_abs s < ?n"
    by (auto simp: RoundRobin_inv_def rr_abs_def)
  from Suc.prems obtain x t where step: "RoundRobin_GetNextServer s = Inr (x, t)"
    by (simp add: RoundRobin_GetNextServer_eq)
  with Suc.prems have t: "RoundRobin_inv t" and srv: "rr_servers t = rr_servers s"
    and xt: "(x, rr_abs t) = rr_spec (rr_servers s) (rr_abs s)"
    by (rule RoundRobin_GetNextServer_inv RoundRobin_GetNextServer_abs)+
  from Suc.IH [OF t] srv obtain s' where
    run: "calls RoundRobin_vtable k t = Inr (rr_outputs (rr_servers s) (rr_abs t) k, s')"
    and s': "RoundRobin_inv s'" "rr_servers s' = rr_servers s"
    and c': "rr_abs s' = (rr_abs t + k) mod ?n"
    by auto
  from xt have x: "x = rr_servers s ! rr_abs s" and ct: "rr_abs t = Suc (rr_abs s) mod ?n"
    by (simp_all add: rr_spec_def)
  from step run have "calls RoundRobin_vtable (Suc k) s =
      Inr (x # rr_outputs (rr_servers s) (rr_abs t) k, s')"
    by (simp add: RoundRobin_vtable_def)
  moreover from ne lt have "rr_outputs (rr_servers s) (rr_abs s) (Suc k) =
      x # rr_outputs (rr_servers s) (rr_abs t) k"
    by (simp add: rr_outputs_Suc x ct)
  moreover from c' have "rr_abs s' = (rr_abs s + Suc k) mod ?n"
    by (simp add: ct mod_add_left_eq mod_Suc_eq)
  ultimately show ?case using s' by simp
qed

text \<open>After as many calls as the pool has servers the object is in the state it started in.\<close>

lemma RoundRobin_calls_period:
  assumes "RoundRobin_inv s"
  shows "calls RoundRobin_vtable (length (rr_servers s)) s =
    Inr (rotate (rr_abs s) (rr_servers s), s)"
proof -
  from RoundRobin_calls [OF assms, of "length (rr_servers s)"] obtain s' where
    run: "calls RoundRobin_vtable (length (rr_servers s)) s =
      Inr (rr_outputs (rr_servers s) (rr_abs s) (length (rr_servers s)), s')"
    and srv: "rr_servers s' = rr_servers s"
    and cur: "rr_abs s' = (rr_abs s + length (rr_servers s)) mod length (rr_servers s)"
    by blast
  from assms cur have "unat (rr_curr_index s') = unat (rr_curr_index s)"
    by (simp add: RoundRobin_inv_def rr_abs_def)
  then have "rr_curr_index s' = rr_curr_index s"
    by (simp add: word_unat_eq_iff)
  with srv have "s' = s" by simp
  with run show ?thesis by (simp add: rr_outputs_rotate)
qed

section \<open>Properties\<close>

text \<open>
  C3 (round-robin cycle property). On a freshly constructed \<open>RoundRobin\<close> over a pool of
  \<open>n\<close> servers, \<open>k\<close> consecutive calls of \<open>GetNextServer\<close> all return, the \<open>i\<close>-th of them
  (counted from 0) returns \<open>pool ! (i mod n)\<close>, and the cursor ends at \<open>k mod n\<close>.
\<close>

theorem RoundRobin_cycle:
  assumes "RoundRobin_new pool = Inr s" and "vector_ok pool"
  shows "\<exists>s'. calls RoundRobin_vtable k s =
           Inr (map (\<lambda>i. pool ! (i mod length pool)) [0..<k], s')
         \<and> rr_servers s' = pool \<and> unat (rr_curr_index s') = k mod length pool"
proof -
  from assms have "RoundRobin_inv s" by (rule RoundRobin_new_inv)
  from RoundRobin_calls [OF this, of k] assms(1) show ?thesis
    by (auto simp: RoundRobin_new_Inr rr_abs_def rr_outputs_def)
qed

theorem RoundRobin_cycle_witness:
  "RoundRobin_new [''A'', ''B'', ''C''] = Inr \<lparr>rr_servers = [''A'', ''B'', ''C''], rr_curr_index = 0\<rparr>
   \<and> vector_ok [''A'', ''B'', ''C'']
   \<and> (\<exists>s'. calls RoundRobin_vtable 5 \<lparr>rr_servers = [''A'', ''B'', ''C''], rr_curr_index = 0\<rparr> =
          Inr ([''A'', ''B'', ''C'', ''A'', ''B''], s')
        \<and> rr_servers s' = [''A'', ''B'', ''C''] \<and> unat (rr_curr_index s') = 2)"
  using RoundRobin_cycle [of "[''A'', ''B'', ''C'']"
      "\<lparr>rr_servers = [''A'', ''B'', ''C''], rr_curr_index = 0\<rparr>" 5]
  by (simp add: vector_ok_def upt_rec)

text \<open>
  C11 (refinement of the cursor specification). In a state that satisfies the invariant,
  \<open>GetNextServer\<close> returns what the specification \<open>rr_spec\<close> returns for the cursor read as
  a natural number, and the new cursor is the specification's: \<open>(i + 1) % size\<close> on
  \<open>size_t\<close> is the successor modulo the pool size, the addition never wraps.
\<close>

theorem RoundRobin_refines_spec:
  assumes "RoundRobin_inv s"
  shows "\<exists>s'. RoundRobin_GetNextServer s = Inr (fst (rr_spec (rr_servers s) (rr_abs s)), s')
         \<and> rr_abs s' = snd (rr_spec (rr_servers s) (rr_abs s))
         \<and> rr_servers s' = rr_servers s
         \<and> unat (rr_curr_index s + 1) = Suc (unat (rr_curr_index s))"
proof -
  from assms obtain x s' where step: "RoundRobin_GetNextServer s = Inr (x, s')"
    by (simp add: RoundRobin_GetNextServer_eq)
  with assms have "rr_servers s' = rr_servers s"
    and "(x, rr_abs s') = rr_spec (rr_servers s) (rr_abs s)"
    by (rule RoundRobin_GetNextServer_abs)+
  moreover from assms have "unat (rr_curr_index s + 1) = Suc (unat (rr_curr_index s))"
    by (auto simp: RoundRobin_inv_def vector_ok_def intro: unat_succ_below)
  ultimately show ?thesis using step by (metis fst_conv snd_conv)
qed

theorem RoundRobin_refines_spec_witness:
  "RoundRobin_inv \<lparr>rr_servers = [''A'', ''B''], rr_curr_index = 1\<rparr>
   \<and> (\<exists>s'. RoundRobin_GetNextServer \<lparr>rr_servers = [''A'', ''B''], rr_curr_index = 1\<rparr> =
          Inr (''B'', s') \<and> rr_abs s' = 0)"
  using RoundRobin_refines_spec [of "\<lparr>rr_servers = [''A'', ''B''], rr_curr_index = 1\<rparr>"]
  by (auto simp: RoundRobin_inv_def vector_ok_def rr_spec_def rr_abs_def)

text \<open>
  C20 (contract). \<open>RoundRobin\<close> implements \<open>ILoadBalancer\<close>: in every state whose cursor is
  inside the vector, \<open>GetNextServer\<close> returns a server of the pool, keeps the pool and
  leaves the cursor inside the vector. It never indexes past the end.
\<close>

theorem RoundRobin_implements:
  "implements RoundRobin_inv (\<lambda>s. set (rr_servers s)) RoundRobin_vtable"
proof (rule implementsI)
  fix s
  assume inv: "RoundRobin_inv s"
  then obtain x s' where step: "RoundRobin_GetNextServer s = Inr (x, s')"
    by (simp add: RoundRobin_GetNextServer_eq)
  with inv have "RoundRobin_inv s'" and "rr_servers s' = rr_servers s"
    and "(x, rr_abs s') = rr_spec (rr_servers s) (rr_abs s)"
    by (rule RoundRobin_GetNextServer_inv RoundRobin_GetNextServer_abs)+
  moreover from inv have "rr_servers s ! rr_abs s \<in> set (rr_servers s)"
    by (simp add: RoundRobin_inv_def rr_abs_def)
  ultimately show "\<exists>x s'. GetNextServer RoundRobin_vtable s = Inr (x, s') \<and> RoundRobin_inv s' \<and>
      x \<in> set (rr_servers s) \<and> set (rr_servers s') = set (rr_servers s)"
    using step by (simp add: RoundRobin_vtable_def rr_spec_def)
qed

theorem RoundRobin_implements_witness:
  "\<exists>xs s'. calls RoundRobin_vtable 4 \<lparr>rr_servers = [''A'', ''B''], rr_curr_index = 1\<rparr> = Inr (xs, s')
     \<and> RoundRobin_inv s' \<and> set xs \<subseteq> {''A'', ''B''}"
  using implements_calls [OF RoundRobin_implements,
      of "\<lparr>rr_servers = [''A'', ''B''], rr_curr_index = 1\<rparr>" 4]
  by (auto simp: RoundRobin_inv_def vector_ok_def)

text \<open>
  C23 (fair window). From any state that satisfies the invariant, as many calls as the
  pool has servers return the pool rotated to the cursor, so every position of the pool
  is served exactly once, and the object is back in the state it started from.
\<close>

theorem RoundRobin_window:
  assumes "RoundRobin_inv s"
  shows "calls RoundRobin_vtable (length (rr_servers s)) s =
      Inr (rotate (unat (rr_curr_index s)) (rr_servers s), s)"
  using RoundRobin_calls_period [OF assms] by (simp add: rr_abs_def)

theorem RoundRobin_window_witness:
  "RoundRobin_inv \<lparr>rr_servers = [''A'', ''B'', ''C''], rr_curr_index = 1\<rparr>
   \<and> calls RoundRobin_vtable 3 \<lparr>rr_servers = [''A'', ''B'', ''C''], rr_curr_index = 1\<rparr> =
       Inr ([''B'', ''C'', ''A''], \<lparr>rr_servers = [''A'', ''B'', ''C''], rr_curr_index = 1\<rparr>)"
  using RoundRobin_window [of "\<lparr>rr_servers = [''A'', ''B'', ''C''], rr_curr_index = 1\<rparr>"]
  by (simp add: RoundRobin_inv_def vector_ok_def numeral_3_eq_3 del: calls.simps)

end
