(* ===== verification/WeightRoundRobin.thy ===== *)
theory WeightRoundRobin
  imports Interface
begin

text \<open>
  The class \<open>WeightRoundRobin\<close> of \<open>roundrobinalgo.cpp\<close>: the fields \<open>_servers\<close>,
  \<open>_curr_server_index\<close> and \<open>_curr_server\<close> (a copy of the current entry whose weight is
  counted down), the constructor and \<open>GetNextServer\<close>. The weight is a \<open>size_t\<close>: the test
  \<open>_curr_server.second <= 0\<close> is a test for zero and the decrement of a zero wraps to
  \<open>2 ^ 64 - 1\<close>. The lemmas describe a run block by block: a state with \<open>r\<close> selections left
  returns its server \<open>r\<close> times (\<open>wrr_block\<close>), an exhausted state moves to the next entry
  and returns it \<open>effective_weight\<close> times (\<open>wrr_block_next\<close>), blocks compose along the
  vector (\<open>wrr_segment\<close>) and around it (\<open>wrr_full_cycle\<close>). With positive weights the
  effective weight is the configured one and the run is the periodic repetition of
  \<open>wrr_cycle\<close>; an entry of weight zero has the effective weight \<open>2 ^ 64\<close>.
\<close>

section \<open>State and operations\<close>

type_synonym weight_server_type = "server_id \<times> size_t"

record WeightRoundRobin =
  wrr_servers :: "weight_server_type list"
  wrr_curr_server_index :: size_t
  wrr_curr_server :: weight_server_type

definition WeightRoundRobin_new :: "weight_server_type list \<Rightarrow> WeightRoundRobin result" where
  "WeightRoundRobin_new servers =
     (if vector_empty servers then Inl (Runtime_Error ''server list is empty'')
      else case vector_at servers 0 of
             Inl e \<Rightarrow> Inl e
           | Inr c \<Rightarrow> Inr \<lparr>wrr_servers = servers, wrr_curr_server_index = 0, wrr_curr_server = c\<rparr>)"

definition WeightRoundRobin_advance :: "WeightRoundRobin \<Rightarrow> WeightRoundRobin result" where
  "WeightRoundRobin_advance s =
     (case next_index (wrr_curr_server_index s) (vector_size (wrr_servers s)) of
        Inl e \<Rightarrow> Inl e
      | Inr i \<Rightarrow>
          (case vector_subscript (wrr_servers s) i of
             Inl e \<Rightarrow> Inl e
           | Inr c \<Rightarrow> Inr (s\<lparr>wrr_curr_server_index := i, wrr_curr_server := c\<rparr>)))"

definition WeightRoundRobin_GetNextServer ::
  "WeightRoundRobin \<Rightarrow> (server_id \<times> WeightRoundRobin) result" where
  "WeightRoundRobin_GetNextServer s =
     (case (if snd (wrr_curr_server s) \<le> 0 then WeightRoundRobin_advance s else Inr s) of
        Inl e \<Rightarrow> Inl e
      | Inr s1 \<Rightarrow>
          (let s2 = s1\<lparr>wrr_curr_server :=
                        (fst (wrr_curr_server s1), snd (wrr_curr_server s1) - 1)\<rparr>
           in Inr (fst (wrr_curr_server s2), s2)))"

definition WeightRoundRobin_vtable :: "WeightRoundRobin ILoadBalancer" where
  "WeightRoundRobin_vtable = \<lparr>GetNextServer = WeightRoundRobin_GetNextServer\<rparr>"

definition WeightRoundRobin_inv :: "WeightRoundRobin \<Rightarrow> bool" where
  "WeightRoundRobin_inv s \<longleftrightarrow>
     vector_ok (wrr_servers s) \<and> unat (wrr_curr_server_index s) < length (wrr_servers s) \<and>
     fst (wrr_curr_server s) = fst (wrr_servers s ! unat (wrr_curr_server_index s))"

definition effective_weight :: "size_t \<Rightarrow> nat" where
  "effective_weight w = (if w = 0 then 2 ^ 64 else unat w)"

definition wrr_exhausted :: "weight_server_type list \<Rightarrow> nat \<Rightarrow> WeightRoundRobin" where
  "wrr_exhausted xs i =
     \<lparr>wrr_servers = xs, wrr_curr_server_index = of_nat i, wrr_curr_server = (fst (xs ! i), 0)\<rparr>"

section \<open>Specification\<close>

text \<open>
  \<open>wrr_budget_ok\<close>: the remaining count does not exceed the configured weight of the
  current entry. \<open>wrr_cycle\<close>: one pass over the pool, each server as often as its weight
  says. \<open>wrr_eff_cycle\<close>: one pass as the code performs it from an exhausted state.
\<close>

definition wrr_budget_ok :: "WeightRoundRobin \<Rightarrow> bool" where
  "wrr_budget_ok s \<longleftrightarrow>
     snd (wrr_curr_server s) \<le> snd (wrr_servers s ! unat (wrr_curr_server_index s))"

definition wrr_pool :: "WeightRoundRobin \<Rightarrow> server_id set" where
  "wrr_pool s = fst ` set (wrr_servers s)"

definition wrr_block_of :: "weight_server_type \<Rightarrow> server_id list" where
  "wrr_block_of p = replicate (effective_weight (snd p)) (fst p)"

definition wrr_eff_cycle :: "weight_server_type list \<Rightarrow> server_id list" where
  "wrr_eff_cycle xs = concat (map wrr_block_of xs)"

definition wrr_cycle :: "weight_server_type list \<Rightarrow> server_id list" where
  "wrr_cycle xs = concat (map (\<lambda>p. replicate (unat (snd p)) (fst p)) xs)"

definition positive_weights :: "weight_server_type list \<Rightarrow> bool" where
  "positive_weights xs = list_all (\<lambda>p. snd p \<noteq> 0) xs"

section \<open>Single calls\<close>

lemma Suc_unat_pred: "Suc (unat (w - 1 :: size_t)) = effective_weight w"
proof (cases "w = 0")
  case True
  then show ?thesis by (simp add: effective_weight_def unat_minus_1)
next
  case False
  then have "0 < unat w" by (simp add: unat_gt_0)
  with False show ?thesis by (simp add: effective_weight_def unat_pred)
qed

lemma WeightRoundRobin_GetNextServer_keep:
  assumes "snd (wrr_curr_server s) \<noteq> 0"
  shows "WeightRoundRobin_GetNextServer s =
    Inr (fst (wrr_curr_server s),
         s\<lparr>wrr_curr_server := (fst (wrr_curr_server s), snd (wrr_curr_server s) - 1)\<rparr>)"
  using assms by (simp add: WeightRoundRobin_GetNextServer_def)

lemma WeightRoundRobin_GetNextServer_advance:
  assumes "WeightRoundRobin_inv s" and "snd (wrr_curr_server s) = 0"
  shows "WeightRoundRobin_GetNextServer s =
    (let i = (wrr_curr_server_index s + 1) mod vector_size (wrr_servers s);
         c = wrr_servers s ! unat i
     in Inr (fst c, s\<lparr>wrr_curr_server_index := i, wrr_curr_server := (fst c, snd c - 1)\<rparr>))"
proof -
  let ?i = "(wrr_curr_server_index s + 1) mod vector_size (wrr_servers s)"
  from assms(1) have ok: "vector_ok (wrr_servers s)"
    and lt: "unat (wrr_curr_server_index s) < length (wrr_servers s)"
    by (simp_all add: WeightRoundRobin_inv_def)
  from ok lt have "next_index (wrr_curr_server_index s) (vector_size (wrr_servers s)) = Inr ?i"
    and "unat ?i < length (wrr_servers s)"
    by (rule next_index_in_range)+
  then have "WeightRoundRobin_advance s =
      Inr (s\<lparr>wrr_curr_server_index := ?i, wrr_curr_server := wrr_servers s ! unat ?i\<rparr>)"
    by (simp add: WeightRoundRobin_advance_def)
  with assms(2) show ?thesis
    by (simp add: WeightRoundRobin_GetNextServer_def Let_def)
qed

lemma wrr_block:
  "unat (snd (wrr_curr_server s)) = r \<Longrightarrow>
   calls WeightRoundRobin_vtable r s =
     Inr (replicate r (fst (wrr_curr_server s)),
          s\<lparr>wrr_curr_server := (fst (wrr_curr_server s), 0)\<rparr>)"
proof (induction r arbitrary: s)
  case 0
  then have "snd (wrr_curr_server s) = 0" by (simp add: unat_eq_0)
  then have "(fst (wrr_curr_server s), 0) = wrr_curr_server s"
    by (metis prod.collapse)
  then show ?case by simp
next
  case (Suc r)
  let ?c = "wrr_curr_server s"
  let ?t = "s\<lparr>wrr_curr_server := (fst ?c, snd ?c - 1)\<rparr>"
  from Suc.prems have nz: "snd ?c \<noteq> 0" by auto
  then have "unat (snd (wrr_curr_server ?t)) = r"
    using Suc.prems by (simp add: unat_pred)
  then have "calls WeightRoundRobin_vtable r ?t =
      Inr (replicate r (fst (wrr_curr_server ?t)),
           ?t\<lparr>wrr_curr_server := (fst (wrr_curr_server ?t), 0)\<rparr>)"
    by (rule Suc.IH)
  with nz show ?case
    by (simp add: WeightRoundRobin_vtable_def WeightRoundRobin_GetNextServer_keep)
qed

lemma wrr_exhausted_sel [simp]:
  "wrr_servers (wrr_exhausted xs i) = xs"
  "wrr_curr_server_index (wrr_exhausted xs i) = of_nat i"
  "wrr_curr_server (wrr_exhausted xs i) = (fst (xs ! i), 0)"
  by (simp_all add: wrr_exhausted_def)

lemma wrr_exhausted_inv:
  "vector_ok xs \<Longrightarrow> i < length xs \<Longrightarrow> WeightRoundRobin_inv (wrr_exhausted xs i)"
  by (simp add: WeightRoundRobin_inv_def wrr_exhausted_def vector_ok_def unat_of_nat_size_t)

lemma wrr_block_next:
  assumes ok: "vector_ok xs" and i: "i < length xs" and j: "j = Suc i mod length xs"
  shows "calls WeightRoundRobin_vtable (effective_weight (snd (xs ! j))) (wrr_exhausted xs i) =
    Inr (replicate (effective_weight (snd (xs ! j))) (fst (xs ! j)), wrr_exhausted xs j)"
proof -
  let ?s = "wrr_exhausted xs i"
  let ?i' = "(of_nat i + 1) mod vector_size xs :: size_t"
  let ?w = "snd (xs ! j)"
  from ok i have ui: "unat (of_nat i :: size_t) = i"
    by (simp add: vector_ok_def unat_of_nat_size_t)
  with ok i j have uj: "unat ?i' = j"
    by (simp add: next_index_in_range(2))
  then have i': "?i' = of_nat j" by (metis of_nat_unat ucast_id)
  let ?t = "\<lparr>wrr_servers = xs, wrr_curr_server_index = of_nat j,
             wrr_curr_server = (fst (xs ! j), ?w - 1)\<rparr>"
  from wrr_exhausted_inv [OF ok i] have "WeightRoundRobin_GetNextServer ?s =
      Inr (fst (xs ! unat ?i'),
           ?s\<lparr>wrr_curr_server_index := ?i',
                wrr_curr_server := (fst (xs ! unat ?i'), snd (xs ! unat ?i') - 1)\<rparr>)"
    by (simp add: WeightRoundRobin_GetNextServer_advance Let_def)
  then have step: "WeightRoundRobin_GetNextServer ?s = Inr (fst (xs ! j), ?t)"
    by (simp add: uj) (simp add: i' wrr_exhausted_def)
  have "calls WeightRoundRobin_vtable (unat (?w - 1)) ?t =
      Inr (replicate (unat (?w - 1)) (fst (xs ! j)), wrr_exhausted xs j)"
    using wrr_block [of ?t "unat (?w - 1)"] by (simp add: wrr_exhausted_def)
  with step have "calls WeightRoundRobin_vtable (Suc (unat (?w - 1))) ?s =
      Inr (replicate (Suc (unat (?w - 1))) (fst (xs ! j)), wrr_exhausted xs j)"
    by (simp add: WeightRoundRobin_vtable_def)
  then show ?thesis by (simp only: Suc_unat_pred)
qed


section \<open>Blocks and cycles\<close>

lemma wrr_eff_cycle_simps [simp]:
  "wrr_eff_cycle [] = []"
  "wrr_eff_cycle (p # xs) = wrr_block_of p @ wrr_eff_cycle xs"
  "wrr_eff_cycle (xs @ ys) = wrr_eff_cycle xs @ wrr_eff_cycle ys"
  by (simp_all add: wrr_eff_cycle_def)

lemma length_wrr_block_of [simp]: "length (wrr_block_of p) = effective_weight (snd p)"
  by (simp add: wrr_block_of_def)

lemma wrr_eff_cycle_positive: "positive_weights xs \<Longrightarrow> wrr_eff_cycle xs = wrr_cycle xs"
  by (induction xs)
     (simp_all add: wrr_cycle_def positive_weights_def wrr_block_of_def effective_weight_def)

lemma wrr_cycle_nonempty: "positive_weights xs \<Longrightarrow> xs \<noteq> [] \<Longrightarrow> wrr_cycle xs \<noteq> []"
  by (cases xs) (auto simp: wrr_cycle_def positive_weights_def unat_eq_0)

lemma wrr_segment:
  assumes ok: "vector_ok xs"
  shows "i + k < length xs \<Longrightarrow>
    calls WeightRoundRobin_vtable (length (wrr_eff_cycle (take k (drop (Suc i) xs))))
        (wrr_exhausted xs i) =
      Inr (wrr_eff_cycle (take k (drop (Suc i) xs)), wrr_exhausted xs (i + k))"
proof (induction k)
  case 0
  then show ?case by simp
next
  case (Suc k)
  let ?p = "xs ! Suc (i + k)"
  from Suc.prems have lt: "i + k < length xs" and mod: "Suc (i + k) = Suc (i + k) mod length xs"
    by simp_all
  from Suc.prems have split: "take (Suc k) (drop (Suc i) xs) = take k (drop (Suc i) xs) @ [?p]"
    by (simp add: take_Suc_conv_app_nth)
  have "calls WeightRoundRobin_vtable (effective_weight (snd ?p)) (wrr_exhausted xs (i + k)) =
      Inr (replicate (effective_weight (snd ?p)) (fst ?p), wrr_exhausted xs (Suc (i + k)))"
    by (rule wrr_block_next [OF ok lt mod])
  with Suc.IH [OF lt] have
    "calls WeightRoundRobin_vtable
       (length (wrr_eff_cycle (take k (drop (Suc i) xs))) + effective_weight (snd ?p))
       (wrr_exhausted xs i) =
     Inr (wrr_eff_cycle (take k (drop (Suc i) xs)) @ replicate (effective_weight (snd ?p)) (fst ?p),
          wrr_exhausted xs (Suc (i + k)))"
    by (rule calls_add)
  then show ?case by (simp add: split wrr_block_of_def)
qed

lemma wrr_tail:
  assumes ok: "vector_ok xs" and ne: "xs \<noteq> []"
  shows "calls WeightRoundRobin_vtable (length (wrr_eff_cycle (tl xs))) (wrr_exhausted xs 0) =
    Inr (wrr_eff_cycle (tl xs), wrr_exhausted xs (length xs - 1))"
proof -
  from ne have "0 + (length xs - 1) < length xs" by simp
  from wrr_segment [OF ok this] show ?thesis by (simp add: drop_Suc)
qed

lemma wrr_full_cycle:
  assumes ok: "vector_ok xs" and ne: "xs \<noteq> []"
  shows "calls WeightRoundRobin_vtable (length (wrr_eff_cycle xs)) (wrr_exhausted xs (length xs - 1)) =
    Inr (wrr_eff_cycle xs, wrr_exhausted xs (length xs - 1))"
proof -
  from ne have lt: "length xs - 1 < length xs" and mod: "0 = Suc (length xs - 1) mod length xs"
    by simp_all
  from wrr_block_next [OF ok lt mod] wrr_tail [OF ok ne]
  have "calls WeightRoundRobin_vtable
      (effective_weight (snd (xs ! 0)) + length (wrr_eff_cycle (tl xs)))
      (wrr_exhausted xs (length xs - 1)) =
    Inr (replicate (effective_weight (snd (xs ! 0))) (fst (xs ! 0)) @ wrr_eff_cycle (tl xs),
         wrr_exhausted xs (length xs - 1))"
    by (rule calls_add)
  moreover from ne have "xs = xs ! 0 # tl xs" by (cases xs) simp_all
  then have "wrr_eff_cycle xs = wrr_block_of (xs ! 0) @ wrr_eff_cycle (tl xs)"
    by (metis wrr_eff_cycle_simps(2))
  ultimately show ?thesis by (simp add: wrr_block_of_def)
qed

lemma WeightRoundRobin_new_Inr:
  "WeightRoundRobin_new xs = Inr s \<longleftrightarrow>
   xs \<noteq> [] \<and> s = \<lparr>wrr_servers = xs, wrr_curr_server_index = 0, wrr_curr_server = hd xs\<rparr>"
  by (cases xs) (auto simp: WeightRoundRobin_new_def vector_empty_def)

lemma wrr_init_block:
  assumes new: "WeightRoundRobin_new xs = Inr s"
  shows "calls WeightRoundRobin_vtable (unat (snd (hd xs))) s =
    Inr (replicate (unat (snd (hd xs))) (fst (hd xs)), wrr_exhausted xs 0)"
proof -
  from new have ne: "xs \<noteq> []"
    and s: "s = \<lparr>wrr_servers = xs, wrr_curr_server_index = 0, wrr_curr_server = hd xs\<rparr>"
    by (simp_all add: WeightRoundRobin_new_Inr)
  from ne have hd: "hd xs = xs ! 0" by (simp add: hd_conv_nth)
  from wrr_block [of s "unat (snd (hd xs))"] show ?thesis
    by (simp add: s wrr_exhausted_def hd)
qed

lemma wrr_first_cycle:
  assumes ok: "vector_ok xs" and new: "WeightRoundRobin_new xs = Inr s"
  shows "calls WeightRoundRobin_vtable (unat (snd (hd xs)) + length (wrr_eff_cycle (tl xs))) s =
    Inr (replicate (unat (snd (hd xs))) (fst (hd xs)) @ wrr_eff_cycle (tl xs),
         wrr_exhausted xs (length xs - 1))"
proof -
  from new have ne: "xs \<noteq> []" by (simp add: WeightRoundRobin_new_Inr)
  from wrr_init_block [OF new] wrr_tail [OF ok ne] show ?thesis by (rule calls_add)
qed

lemma wrr_cycles:
  assumes ok: "vector_ok xs" and new: "WeightRoundRobin_new xs = Inr s"
    and pos: "positive_weights xs"
  shows "calls WeightRoundRobin_vtable (Suc k * length (wrr_cycle xs)) s =
    Inr (concat (replicate (Suc k) (wrr_cycle xs)), wrr_exhausted xs (length xs - 1))"
proof -
  from new have ne: "xs \<noteq> []" by (simp add: WeightRoundRobin_new_Inr)
  then have xs: "xs = hd xs # tl xs" by simp
  from pos have "positive_weights (hd xs # tl xs)" by (simp flip: xs)
  then have "snd (hd xs) \<noteq> 0" and "positive_weights (tl xs)"
    by (simp_all add: positive_weights_def)
  then have first: "replicate (unat (snd (hd xs))) (fst (hd xs)) @ wrr_eff_cycle (tl xs) = wrr_cycle xs"
    by (subst (3) xs) (simp add: wrr_eff_cycle_positive, simp add: wrr_cycle_def)
  then have len: "length (wrr_cycle xs) = unat (snd (hd xs)) + length (wrr_eff_cycle (tl xs))"
    by (simp flip: first)
  from wrr_first_cycle [OF ok new] have
    "calls WeightRoundRobin_vtable (length (wrr_cycle xs)) s =
       Inr (wrr_cycle xs, wrr_exhausted xs (length xs - 1))"
    by (simp only: len first)
  moreover from wrr_full_cycle [OF ok ne] pos have
    "calls WeightRoundRobin_vtable (k * length (wrr_cycle xs)) (wrr_exhausted xs (length xs - 1)) =
       Inr (concat (replicate k (wrr_cycle xs)), wrr_exhausted xs (length xs - 1))"
    by (simp add: wrr_eff_cycle_positive calls_period)
  ultimately have "calls WeightRoundRobin_vtable (length (wrr_cycle xs) + k * length (wrr_cycle xs)) s =
      Inr (wrr_cycle xs @ concat (replicate k (wrr_cycle xs)), wrr_exhausted xs (length xs - 1))"
    by (rule calls_add)
  then show ?thesis by simp
qed


text \<open>Any number of calls on a fresh object is a prefix of the repeated cycle.\<close>

lemma wrr_run_length:
  assumes "WeightRoundRobin_new xs = Inr s" and "positive_weights xs"
  shows "m \<le> Suc m * length (wrr_cycle xs)"
proof -
  from assms(1) have "xs \<noteq> []" by (simp add: WeightRoundRobin_new_Inr)
  with assms(2) have "wrr_cycle xs \<noteq> []" by (rule wrr_cycle_nonempty)
  then show ?thesis by (cases "wrr_cycle xs") simp_all
qed

lemma wrr_run:
  assumes "vector_ok xs" and "WeightRoundRobin_new xs = Inr s" and "positive_weights xs"
  shows "\<exists>s'. calls WeightRoundRobin_vtable m s =
    Inr (take m (concat (replicate (Suc m) (wrr_cycle xs))), s')"
  using wrr_cycles [OF assms] wrr_run_length [OF assms(2,3)] by (rule calls_take)

section \<open>Invariants\<close>

lemma WeightRoundRobin_new_inv [lb_inv]:
  assumes "WeightRoundRobin_new xs = Inr s" and "vector_ok xs"
  shows "WeightRoundRobin_inv s" and "wrr_budget_ok s"
  using assms
  by (auto simp: WeightRoundRobin_new_Inr WeightRoundRobin_inv_def wrr_budget_ok_def hd_conv_nth)

text \<open>The two ways a call can go, as a case rule for states that satisfy the invariant.\<close>

lemma WeightRoundRobin_GetNextServer_cases [consumes 2, case_names keep advance]:
  assumes "WeightRoundRobin_inv s" and "WeightRoundRobin_GetNextServer s = Inr (x, s')"
  obtains
    (keep) "snd (wrr_curr_server s) \<noteq> 0" and "x = fst (wrr_curr_server s)"
      and "s' = s\<lparr>wrr_curr_server := (fst (wrr_curr_server s), snd (wrr_curr_server s) - 1)\<rparr>"
  | (advance) j where "snd (wrr_curr_server s) = 0"
      and "j = Suc (unat (wrr_curr_server_index s)) mod length (wrr_servers s)"
      and "x = fst (wrr_servers s ! j)" and "wrr_servers s' = wrr_servers s"
      and "unat (wrr_curr_server_index s') = j"
      and "wrr_curr_server s' = (fst (wrr_servers s ! j), snd (wrr_servers s ! j) - 1)"
proof (cases "snd (wrr_curr_server s) = 0")
  case False
  with assms(2) show ?thesis
    by (intro keep) (auto simp: WeightRoundRobin_GetNextServer_keep)
next
  case True
  let ?i = "(wrr_curr_server_index s + 1) mod vector_size (wrr_servers s)"
  from assms(1) have "unat ?i = Suc (unat (wrr_curr_server_index s)) mod length (wrr_servers s)"
    by (simp add: WeightRoundRobin_inv_def next_index_in_range(2))
  with assms True show ?thesis
    by (intro advance [of "unat ?i"])
       (auto simp: WeightRoundRobin_GetNextServer_advance Let_def)
qed

lemma WeightRoundRobin_GetNextServer_defined:
  "WeightRoundRobin_inv s \<Longrightarrow> \<exists>x s'. WeightRoundRobin_GetNextServer s = Inr (x, s')"
  by (cases "snd (wrr_curr_server s) = 0")
     (simp_all add: WeightRoundRobin_GetNextServer_keep WeightRoundRobin_GetNextServer_advance Let_def)

lemma WeightRoundRobin_GetNextServer_inv [lb_inv]:
  assumes "WeightRoundRobin_inv s" and "WeightRoundRobin_GetNextServer s = Inr (x, s')"
  shows "WeightRoundRobin_inv s'" and "wrr_servers s' = wrr_servers s" and "x \<in> wrr_pool s"
proof -
  from assms(1) have ok: "vector_ok (wrr_servers s)"
    and lt: "unat (wrr_curr_server_index s) < length (wrr_servers s)"
    and cur: "fst (wrr_curr_server s) = fst (wrr_servers s ! unat (wrr_curr_server_index s))"
    by (simp_all add: WeightRoundRobin_inv_def)
  from lt have ne: "wrr_servers s \<noteq> []" by auto
  from assms show "WeightRoundRobin_inv s'"
    by (cases rule: WeightRoundRobin_GetNextServer_cases)
       (use ok lt cur ne in \<open>simp_all add: WeightRoundRobin_inv_def\<close>)
  from assms show "wrr_servers s' = wrr_servers s"
    by (cases rule: WeightRoundRobin_GetNextServer_cases) simp_all
  from assms show "x \<in> wrr_pool s"
    by (cases rule: WeightRoundRobin_GetNextServer_cases)
       (use lt cur ne in \<open>simp_all add: wrr_pool_def\<close>)
qed

lemma positive_weights_nth: "positive_weights xs \<Longrightarrow> i < length xs \<Longrightarrow> snd (xs ! i) \<noteq> 0"
  by (simp add: positive_weights_def list_all_length)

lemma size_t_pred_less: "(w :: size_t) \<noteq> 0 \<Longrightarrow> w - 1 < w"
  by (simp add: word_less_nat_alt unat_pred unat_gt_0)

section \<open>Properties\<close>

text \<open>
  C1 (weighted cycle property). For a pool in which every weight is positive, the \<open>i\<close>-th
  call (counted from 0) on a freshly constructed \<open>WeightRoundRobin\<close> returns element
  \<open>i mod W\<close> of \<open>wrr_cycle\<close>, the list that holds each server as often as its weight says,
  in contiguous blocks and in pool order; \<open>W\<close> is the sum of the weights. No call fails.
\<close>

theorem WeightRoundRobin_cycle:
  assumes "WeightRoundRobin_new servers = Inr s" and "vector_ok servers"
    and "positive_weights servers"
  shows "\<exists>s'. calls WeightRoundRobin_vtable m s =
    Inr (map (\<lambda>i. wrr_cycle servers ! (i mod length (wrr_cycle servers))) [0..<m], s')"
proof -
  from assms(1,3) have le: "m \<le> Suc m * length (wrr_cycle servers)" by (rule wrr_run_length)
  from wrr_run [OF assms(2,1,3), of m] show ?thesis
    unfolding take_concat_replicate [OF le] .
qed

theorem WeightRoundRobin_cycle_witness:
  "WeightRoundRobin_new [(''A'', 5), (''B'', 1), (''C'', 1)] =
     Inr \<lparr>wrr_servers = [(''A'', 5), (''B'', 1), (''C'', 1)], wrr_curr_server_index = 0,
          wrr_curr_server = (''A'', 5)\<rparr>
   \<and> vector_ok [(''A'', 5 :: size_t), (''B'', 1), (''C'', 1)]
   \<and> positive_weights [(''A'', 5), (''B'', 1), (''C'', 1)]
   \<and> (\<exists>s'. calls WeightRoundRobin_vtable 7
          \<lparr>wrr_servers = [(''A'', 5), (''B'', 1), (''C'', 1)], wrr_curr_server_index = 0,
           wrr_curr_server = (''A'', 5)\<rparr> =
        Inr ([''A'', ''A'', ''A'', ''A'', ''A'', ''B'', ''C''], s'))"
  using WeightRoundRobin_cycle [of "[(''A'', 5), (''B'', 1), (''C'', 1)]"
      "\<lparr>wrr_servers = [(''A'', 5), (''B'', 1), (''C'', 1)], wrr_curr_server_index = 0,
        wrr_curr_server = (''A'', 5)\<rparr>" 7]
  by (simp add: WeightRoundRobin_new_Inr vector_ok_def positive_weights_def wrr_cycle_def
      replicate_numeral upt_rec)

text \<open>
  C4 (a weight of zero wraps around). When the second entry of the pool has weight 0, a
  fresh object returns the first server as often as its weight says and then the
  zero-weight server \<open>2 ^ 64\<close> times in a row: the advance loads the weight 0 and the
  decrement that follows wraps it to \<open>2 ^ 64 - 1\<close>.
\<close>

theorem WeightRoundRobin_zero_weight_wraps:
  assumes "WeightRoundRobin_new xs = Inr s" and "vector_ok xs" and "1 < length xs"
    and "snd (xs ! 1) = 0"
  shows "calls WeightRoundRobin_vtable (unat (snd (xs ! 0)) + 2 ^ 64) s =
    Inr (replicate (unat (snd (xs ! 0))) (fst (xs ! 0)) @ replicate (2 ^ 64) (fst (xs ! 1)),
         wrr_exhausted xs 1)"
proof -
  have ne: "xs \<noteq> []" using assms(3) by (cases xs) simp_all
  then have hd: "hd xs = xs ! 0" by (simp add: hd_conv_nth)
  from ne have lt: "0 < length xs" by simp
  from assms(3) have mod: "1 = Suc 0 mod length xs" by simp
  from wrr_block_next [OF assms(2) lt mod] assms(4)
  have "calls WeightRoundRobin_vtable (2 ^ 64) (wrr_exhausted xs 0) =
      Inr (replicate (2 ^ 64) (fst (xs ! 1)), wrr_exhausted xs 1)"
    by (simp add: effective_weight_def)
  with wrr_init_block [OF assms(1)] show ?thesis
    unfolding hd by (rule calls_add)
qed

theorem WeightRoundRobin_zero_weight_wraps_witness:
  "WeightRoundRobin_new [(''A'', 1), (''B'', 0)] =
     Inr \<lparr>wrr_servers = [(''A'', 1), (''B'', 0)], wrr_curr_server_index = 0,
          wrr_curr_server = (''A'', 1)\<rparr>
   \<and> vector_ok [(''A'', 1 :: size_t), (''B'', 0)]
   \<and> calls WeightRoundRobin_vtable (1 + 2 ^ 64)
        \<lparr>wrr_servers = [(''A'', 1), (''B'', 0)], wrr_curr_server_index = 0,
         wrr_curr_server = (''A'', 1)\<rparr> =
      Inr (''A'' # replicate (2 ^ 64) ''B'', wrr_exhausted [(''A'', 1), (''B'', 0)] 1)"
  using WeightRoundRobin_zero_weight_wraps [of "[(''A'', 1), (''B'', 0)]"
      "\<lparr>wrr_servers = [(''A'', 1), (''B'', 0)], wrr_curr_server_index = 0,
        wrr_curr_server = (''A'', 1)\<rparr>"]
  by (simp add: WeightRoundRobin_new_Inr vector_ok_def)

text \<open>
  C19 (contract). \<open>WeightRoundRobin\<close> implements \<open>ILoadBalancer\<close>: in every state in which
  the cursor is inside the vector and the current entry names the server at the cursor,
  \<open>GetNextServer\<close> returns a server of the pool, keeps the pool and re-establishes that
  state invariant. Weights play no part in it.
\<close>

theorem WeightRoundRobin_implements:
  "implements WeightRoundRobin_inv wrr_pool WeightRoundRobin_vtable"
proof (rule implementsI)
  fix s
  assume inv: "WeightRoundRobin_inv s"
  then obtain x s' where step: "WeightRoundRobin_GetNextServer s = Inr (x, s')"
    using WeightRoundRobin_GetNextServer_defined by blast
  with inv have "WeightRoundRobin_inv s'" "wrr_servers s' = wrr_servers s" "x \<in> wrr_pool s"
    by (rule WeightRoundRobin_GetNextServer_inv)+
  with step show "\<exists>x s'. GetNextServer WeightRoundRobin_vtable s = Inr (x, s') \<and>
      WeightRoundRobin_inv s' \<and> x \<in> wrr_pool s \<and> wrr_pool s' = wrr_pool s"
    by (simp add: WeightRoundRobin_vtable_def wrr_pool_def)
qed

theorem WeightRoundRobin_implements_witness:
  "\<exists>xs s'. calls WeightRoundRobin_vtable 3 (wrr_exhausted [(''A'', 2), (''B'', 0)] 1) = Inr (xs, s')
     \<and> WeightRoundRobin_inv s' \<and> set xs \<subseteq> {''A'', ''B''}"
  using implements_calls [OF WeightRoundRobin_implements,
      of "wrr_exhausted [(''A'', 2), (''B'', 0)] 1" 3]
  by (auto simp: wrr_exhausted_inv vector_ok_def wrr_pool_def)

text \<open>
  C21 (weight budget). When every weight of the pool is positive, a call from a state whose
  remaining count is at most the weight of the current entry leaves the remaining count
  strictly below the weight of the entry that is then current: the count never exceeds
  the configured weight and a returned server always had budget left.
\<close>

theorem WeightRoundRobin_budget:
  assumes "WeightRoundRobin_inv s" and "WeightRoundRobin_GetNextServer s = Inr (x, s')"
    and "wrr_budget_ok s" and "positive_weights (wrr_servers s)"
  shows "snd (wrr_curr_server s') < snd (wrr_servers s' ! unat (wrr_curr_server_index s'))"
  using assms(1,2)
proof (cases rule: WeightRoundRobin_GetNextServer_cases)
  case keep
  then have "snd (wrr_curr_server s) - 1 < snd (wrr_curr_server s)"
    by (simp add: size_t_pred_less)
  with assms(3) keep show ?thesis by (simp add: wrr_budget_ok_def)
next
  case (advance j)
  from assms(1) have "0 < length (wrr_servers s)"
    by (auto simp: WeightRoundRobin_inv_def)
  then have "j < length (wrr_servers s)"
    by (simp add: advance(2))
  with assms(4) have "snd (wrr_servers s ! j) \<noteq> 0" by (rule positive_weights_nth)
  with advance show ?thesis by (simp add: size_t_pred_less)
qed

theorem WeightRoundRobin_budget_witness:
  "WeightRoundRobin_inv (wrr_exhausted [(''A'', 2), (''B'', 3)] 0)
   \<and> wrr_budget_ok (wrr_exhausted [(''A'', 2), (''B'', 3)] 0)
   \<and> positive_weights [(''A'', 2), (''B'', 3)]
   \<and> WeightRoundRobin_GetNextServer (wrr_exhausted [(''A'', 2), (''B'', 3)] 0) =
       Inr (''B'', \<lparr>wrr_servers = [(''A'', 2), (''B'', 3)], wrr_curr_server_index = 1,
                   wrr_curr_server = (''B'', 2)\<rparr>)
   \<and> (2 :: size_t) < 3"
  using WeightRoundRobin_budget [of "wrr_exhausted [(''A'', 2), (''B'', 3)] 0" "''B''"
      "\<lparr>wrr_servers = [(''A'', 2), (''B'', 3)], wrr_curr_server_index = 1,
        wrr_curr_server = (''B'', 2)\<rparr>"]
  by (simp add: WeightRoundRobin_inv_def vector_ok_def wrr_budget_ok_def positive_weights_def
      WeightRoundRobin_GetNextServer_def WeightRoundRobin_advance_def next_index_def
      vector_size_def vector_subscript_def wrr_exhausted_def)

end
