(* ===== verification/Unordered_Map.thy ===== *)
theory Unordered_Map
  imports LB_Prelude "HOL-Library.Multiset"
begin

text \<open>
  The part of \<open>std::unordered_map\<close> and \<open>std::min_element\<close> that \<open>LeastConnection\<close> uses.
  A table is the list of its entries in iteration order (\<open>begin()\<close> to \<open>end()\<close>), with
  every key once. The C++ standard does not say where in that order a new key appears, and
  the selection of \<open>LeastConnection\<close> depends on it, so an insertion takes a placement policy
  as a parameter: \<open>placement_ok\<close> asks only that the new table has exactly the old entries and
  the new one. \<open>place_front\<close> and \<open>place_back\<close> are two such policies, used to evaluate
  closed instances. A change of the order on rehash is not modelled: the tables of the
  program hold a handful of keys.

  \<open>min_element\<close> is the loop of the standard algorithm: it keeps the first element and
  replaces it by a later one only when the comparison says that one is strictly smaller.
  \<open>first_min\<close> specifies its result for the comparison of counts, and the library function
  \<open>arg_min_list\<close> is proved to compute it.
\<close>

section \<open>Tables and placement\<close>

type_synonym ('k, 'v) umap = "('k \<times> 'v) list"

type_synonym ('k, 'v) placement = "('k, 'v) umap \<Rightarrow> 'k \<times> 'v \<Rightarrow> ('k, 'v) umap"

definition placement_ok :: "('k, 'v) placement \<Rightarrow> bool" where
  "placement_ok pl \<longleftrightarrow> (\<forall>m e. mset (pl m e) = add_mset e (mset m))"

definition place_front :: "('k, 'v) placement" where
  "place_front m e = e # m"

definition place_back :: "('k, 'v) placement" where
  "place_back m e = m @ [e]"

section \<open>The operations of the table\<close>

text \<open>
  \<open>umap_find\<close> is the lookup of a key that \<open>emplace\<close> and \<open>operator[]\<close> begin with (\<open>None\<close>
  when the key is absent), \<open>umap_emplace\<close> is \<open>emplace\<close> (no effect on a key that is
  present), \<open>umap_subscript\<close> is \<open>operator[]\<close> (the value found, or a new entry with the
  value-initialised count 0) and \<open>umap_assign\<close> is the store through the reference that
  \<open>operator[]\<close> returned, which keeps the position of the entry.
\<close>

definition umap_ok :: "('k, 'v) umap \<Rightarrow> bool" where
  "umap_ok m \<longleftrightarrow> distinct (map fst m)"

definition umap_find :: "'k \<Rightarrow> ('k, 'v) umap \<Rightarrow> 'v option" where
  "umap_find k m = map_of m k"

definition umap_emplace :: "('k, 'v) placement \<Rightarrow> 'k \<Rightarrow> 'v \<Rightarrow> ('k, 'v) umap \<Rightarrow> ('k, 'v) umap" where
  "umap_emplace pl k v m = (case umap_find k m of Some _ \<Rightarrow> m | None \<Rightarrow> pl m (k, v))"

definition umap_subscript ::
  "('k, 'v :: zero) placement \<Rightarrow> 'k \<Rightarrow> ('k, 'v) umap \<Rightarrow> 'v \<times> ('k, 'v) umap" where
  "umap_subscript pl k m =
     (case umap_find k m of Some v \<Rightarrow> (v, m) | None \<Rightarrow> (0, pl m (k, 0)))"

fun umap_assign :: "'k \<Rightarrow> 'v \<Rightarrow> ('k, 'v) umap \<Rightarrow> ('k, 'v) umap" where
  "umap_assign k v [] = []"
| "umap_assign k v (e # m) = (if fst e = k then (k, v) # m else e # umap_assign k v m)"

section \<open>The algorithm min_element\<close>

text \<open>
  \<open>min_element cmp xs\<close> is \<open>None\<close> for the iterator \<open>end()\<close>, which the algorithm returns on an
  empty range only.
\<close>

fun min_element_from :: "('a \<Rightarrow> 'a \<Rightarrow> bool) \<Rightarrow> 'a \<Rightarrow> 'a list \<Rightarrow> 'a" where
  "min_element_from cmp smallest [] = smallest"
| "min_element_from cmp smallest (x # xs) =
     min_element_from cmp (if cmp x smallest then x else smallest) xs"

definition min_element :: "('a \<Rightarrow> 'a \<Rightarrow> bool) \<Rightarrow> 'a list \<Rightarrow> 'a option" where
  "min_element cmp xs =
     (case xs of [] \<Rightarrow> None | x # xs' \<Rightarrow> Some (min_element_from cmp x xs'))"

definition first_min :: "('k \<times> 'v :: linorder) \<Rightarrow> ('k, 'v) umap \<Rightarrow> bool" where
  "first_min e m \<longleftrightarrow>
     (\<exists>ys zs. m = ys @ e # zs \<and> (\<forall>y \<in> set ys. snd e < snd y) \<and> (\<forall>z \<in> set zs. snd e \<le> snd z))"

section \<open>Placement\<close>

text \<open>The defining equations that evaluate an operation on a table given as a list.\<close>

lemmas umap_eval = umap_emplace_def umap_subscript_def umap_find_def place_front_def place_back_def

lemma placement_ok_front [simp]: "placement_ok place_front"
  by (simp add: placement_ok_def place_front_def)

lemma placement_ok_back [simp]: "placement_ok place_back"
  by (simp add: placement_ok_def place_back_def)

lemma placement_mset: "placement_ok pl \<Longrightarrow> mset (pl m e) = mset (e # m)"
  by (cases e) (simp add: placement_ok_def)

lemma placement_set [simp]: "placement_ok pl \<Longrightarrow> set (pl m e) = insert e (set m)"
  by (metis placement_mset set_mset_mset list.simps(15))

lemma placement_keys_mset: "placement_ok pl \<Longrightarrow> mset (map fst (pl m e)) = mset (map fst (e # m))"
  by (metis placement_mset mset_map)

lemma placement_length [simp]: "placement_ok pl \<Longrightarrow> length (pl m e) = Suc (length m)"
  by (metis placement_mset size_mset length_Cons)

lemma placement_ne [simp]: "placement_ok pl \<Longrightarrow> pl m e \<noteq> []"
  by (metis placement_length length_0_conv nat.simps(3))

lemma placement_umap_ok:
  "placement_ok pl \<Longrightarrow> umap_ok m \<Longrightarrow> fst e \<notin> fst ` set m \<Longrightarrow> umap_ok (pl m e)"
  unfolding umap_ok_def
  by (metis placement_keys_mset mset_eq_imp_distinct_iff distinct.simps(2) list.simps(9) set_map)

lemma placement_map_of:
  assumes "placement_ok pl" and "umap_ok m" and "fst e \<notin> fst ` set m"
  shows "map_of (pl m e) = (map_of m)(fst e \<mapsto> snd e)"
proof -
  from assms have "umap_ok (pl m e)" by (rule placement_umap_ok)
  moreover from assms(2,3) have "distinct (map fst (e # m))" by (simp add: umap_ok_def)
  moreover from assms(1) have "set (pl m e) = set (e # m)" by simp
  ultimately have "map_of (pl m e) = map_of (e # m)"
    by (simp add: umap_ok_def map_of_inject_set del: map_of.simps)
  then show ?thesis by (cases e) simp
qed

section \<open>Lookup, insertion, assignment\<close>

lemma umap_find_None_iff: "umap_find k m = None \<longleftrightarrow> k \<notin> fst ` set m"
  by (simp add: umap_find_def map_of_eq_None_iff)

lemma umap_assign_keys [simp]: "map fst (umap_assign k v m) = map fst m"
  by (induction m) auto

lemma umap_assign_length [simp]: "length (umap_assign k v m) = length m"
  by (induction m) auto

lemma umap_assign_eq_Nil [simp]: "umap_assign k v m = [] \<longleftrightarrow> m = []"
  by (cases m) auto

lemma umap_assign_ok [simp]: "umap_ok (umap_assign k v m) = umap_ok m"
  by (simp add: umap_ok_def)

lemma map_of_umap_assign:
  "map_of (umap_assign k v m) = (if k \<in> fst ` set m then (map_of m)(k \<mapsto> v) else map_of m)"
  by (induction m) (auto simp: fun_eq_iff)

lemma umap_assign_absent: "k \<notin> fst ` set m \<Longrightarrow> umap_assign k v m = m"
  by (induction m) auto

lemma umap_assign_find: "umap_find k m = Some v \<Longrightarrow> umap_assign k v m = m"
  by (induction m) (auto simp: umap_find_def split: if_splits)

lemma umap_assign_twice [simp]: "umap_assign k v (umap_assign k w m) = umap_assign k v m"
  by (induction m) auto

lemma umap_find_assign: "k \<in> fst ` set m \<Longrightarrow> umap_find k (umap_assign k v m) = Some v"
  by (simp add: umap_find_def map_of_umap_assign)

lemma umap_subscript_present:
  "umap_find k m = Some v \<Longrightarrow> umap_subscript pl k m = (v, m)"
  by (simp add: umap_subscript_def)

lemma umap_subscript_absent:
  "umap_find k m = None \<Longrightarrow> umap_subscript pl k m = (0, pl m (k, 0))"
  by (simp add: umap_subscript_def)

lemma umap_find_Some_key: "umap_find k m = Some v \<Longrightarrow> k \<in> fst ` set m"
  unfolding umap_find_def by (metis map_of_SomeD fst_conv image_eqI)

lemma umap_subscript_ok:
  assumes pl: "placement_ok pl" and ok: "umap_ok m" and sub: "umap_subscript pl k m = (v, m')"
  shows "umap_ok m'" and "map_of m' = (map_of m)(k \<mapsto> v)"
    and "v = (case umap_find k m of None \<Rightarrow> 0 | Some w \<Rightarrow> w)"
    and "set (map fst m') = insert k (set (map fst m))" and "m' \<noteq> []"
proof -
  have "umap_ok m' \<and> map_of m' = (map_of m)(k \<mapsto> v)
      \<and> v = (case umap_find k m of None \<Rightarrow> 0 | Some w \<Rightarrow> w)
      \<and> set (map fst m') = insert k (set (map fst m)) \<and> m' \<noteq> []"
  proof (cases "umap_find k m")
    case None
    with sub have v: "v = 0" and m': "m' = pl m (k, 0)"
      by (simp_all add: umap_subscript_absent)
    from None have "fst (k, 0 :: 'b) \<notin> fst ` set m" by (simp add: umap_find_None_iff)
    with pl ok have "umap_ok (pl m (k, 0))" and "map_of (pl m (k, 0)) = (map_of m)(k \<mapsto> 0)"
      by (simp_all add: placement_umap_ok placement_map_of)
    with pl None show ?thesis by (simp add: v m')
  next
    case (Some w)
    with sub have v: "v = w" and m': "m' = m"
      by (simp_all add: umap_subscript_present)
    from Some have "k \<in> fst ` set m" by (rule umap_find_Some_key)
    moreover from Some have "(map_of m)(k \<mapsto> w) = map_of m"
      by (simp add: umap_find_def map_upd_triv)
    ultimately show ?thesis using ok Some by (auto simp: v m' insert_absorb)
  qed
  then show "umap_ok m'" and "map_of m' = (map_of m)(k \<mapsto> v)"
    and "v = (case umap_find k m of None \<Rightarrow> 0 | Some w \<Rightarrow> w)"
    and "set (map fst m') = insert k (set (map fst m))" and "m' \<noteq> []"
    by simp_all
qed

lemma umap_emplace_present: "k \<in> fst ` set m \<Longrightarrow> umap_emplace pl k v m = m"
  by (auto simp: umap_emplace_def umap_find_None_iff split: option.splits)

lemma umap_emplace_absent: "k \<notin> fst ` set m \<Longrightarrow> umap_emplace pl k v m = pl m (k, v)"
  by (simp add: umap_emplace_def umap_find_None_iff [symmetric])

lemma umap_emplace_ok:
  assumes "placement_ok pl" and "umap_ok m"
  shows "umap_ok (umap_emplace pl k v m)"
    and "set (map fst (umap_emplace pl k v m)) = insert k (set (map fst m))"
    and "umap_emplace pl k v m \<noteq> []"
    and "k \<notin> fst ` set m \<Longrightarrow> map_of (umap_emplace pl k v m) = (map_of m)(k \<mapsto> v)"
proof -
  show "umap_ok (umap_emplace pl k v m)"
    using assms
    by (cases "k \<in> fst ` set m")
       (simp_all add: umap_emplace_present umap_emplace_absent placement_umap_ok)
  show "set (map fst (umap_emplace pl k v m)) = insert k (set (map fst m))"
    using assms(1)
    by (cases "k \<in> fst ` set m")
       (auto simp: umap_emplace_present umap_emplace_absent)
  show "umap_emplace pl k v m \<noteq> []"
    using assms(1)
    by (cases "k \<in> fst ` set m") (auto simp: umap_emplace_present umap_emplace_absent)
  show "k \<notin> fst ` set m \<Longrightarrow> map_of (umap_emplace pl k v m) = (map_of m)(k \<mapsto> v)"
    using assms by (simp add: umap_emplace_absent placement_map_of)
qed

section \<open>The first minimum\<close>

lemma min_element_from_in: "min_element_from cmp s xs \<in> set (s # xs)"
  by (induction xs arbitrary: s) auto

lemma first_min_leD: "first_min e m \<Longrightarrow> x \<in> set m \<Longrightarrow> snd e \<le> snd x"
  by (auto simp: first_min_def less_imp_le)

lemma first_min_in: "first_min e m \<Longrightarrow> e \<in> set m"
  by (auto simp: first_min_def)

lemma first_min_Cons_less:
  assumes "first_min e m" and "x \<in> set m" and "snd x < snd s"
  shows "first_min e (s # m)"
proof -
  from assms(1) obtain ys zs where m: "m = ys @ e # zs"
    and ys: "\<forall>y \<in> set ys. snd e < snd y" and zs: "\<forall>z \<in> set zs. snd e \<le> snd z"
    by (auto simp: first_min_def)
  from assms(1,2) have "snd e \<le> snd x" by (rule first_min_leD)
  with assms(3) have "snd e < snd s" by simp
  with ys have "\<forall>y \<in> set (s # ys). snd e < snd y" by simp
  moreover from m have "s # m = (s # ys) @ e # zs" by simp
  ultimately show ?thesis using zs unfolding first_min_def by blast
qed

lemma first_min_insert_second:
  assumes "first_min e (s # m)" and "snd s \<le> snd x"
  shows "first_min e (s # x # m)"
proof -
  from assms(1) obtain ys zs where m: "s # m = ys @ e # zs"
    and ys: "\<forall>y \<in> set ys. snd e < snd y" and zs: "\<forall>z \<in> set zs. snd e \<le> snd z"
    by (auto simp: first_min_def)
  show ?thesis
  proof (cases ys)
    case Nil
    with m have "s # x # m = [] @ e # (x # zs)" and "e = s" by simp_all
    moreover from \<open>e = s\<close> assms(2) zs have "\<forall>z \<in> set (x # zs). snd e \<le> snd z" by simp
    ultimately show ?thesis unfolding first_min_def by (metis empty_iff list.set(1))
  next
    case (Cons y ys')
    with m have eq: "s # x # m = (s # x # ys') @ e # zs" and "y = s" by simp_all
    from ys Cons \<open>y = s\<close> have "snd e < snd s" by simp
    with assms(2) have "snd e < snd x" by simp
    with ys Cons \<open>y = s\<close> have "\<forall>y \<in> set (s # x # ys'). snd e < snd y" by simp
    with eq zs show ?thesis unfolding first_min_def by blast
  qed
qed

lemma min_element_from_first:
  fixes s :: "'k \<times> 'v :: linorder"
  shows "first_min (min_element_from (\<lambda>a b. snd a < snd b) s xs) (s # xs)"
proof (induction xs arbitrary: s)
  case Nil
  have "[s] = [] @ s # []" by simp
  then show ?case unfolding first_min_def min_element_from.simps by (metis empty_iff list.set(1))
next
  case (Cons x xs)
  show ?case
  proof (cases "snd x < snd s")
    case True
    with Cons.IH [of x] show ?thesis
      by (simp add: first_min_Cons_less [where x = x])
  next
    case False
    with Cons.IH [of s] show ?thesis
      by (simp add: first_min_insert_second)
  qed
qed

lemma min_element_Nil [simp]: "min_element cmp [] = None"
  by (simp add: min_element_def)

lemma min_element_eq_None [simp]: "min_element cmp xs = None \<longleftrightarrow> xs = []"
  by (cases xs) (simp_all add: min_element_def)

lemma min_element_first:
  fixes m :: "('k, 'v :: linorder) umap"
  assumes "m \<noteq> []"
  shows "\<exists>e. min_element (\<lambda>a b. snd a < snd b) m = Some e \<and> first_min e m"
  using assms by (cases m) (simp_all add: min_element_def min_element_from_first)

lemma arg_min_list_Cons2:
  fixes f :: "'a \<Rightarrow> 'b :: linorder"
  shows "arg_min_list f (s # x # xs) = arg_min_list f ((if f x < f s then x else s) # xs)"
  by (cases xs) (auto simp: Let_def)

lemma min_element_from_arg_min_list:
  fixes s :: "'k \<times> 'v :: linorder"
  shows "min_element_from (\<lambda>a b. snd a < snd b) s xs = arg_min_list snd (s # xs)"
  by (induction xs arbitrary: s) (simp_all add: arg_min_list_Cons2 del: arg_min_list.simps(2))

lemma min_element_arg_min_list:
  fixes m :: "('k, 'v :: linorder) umap"
  shows "m \<noteq> [] \<Longrightarrow> min_element (\<lambda>a b. snd a < snd b) m = Some (arg_min_list snd m)"
  by (cases m) (simp_all add: min_element_def min_element_from_arg_min_list)

end
