(* ===== verification/LeastConnection.thy ===== *)
theory LeastConnection
  imports Interface Unordered_Map
begin

text \<open>
  The class \<open>LeastConnection\<close> of \<open>leastconnecitonalgo.cpp\<close>: its one data member
  \<open>_connections\<close> (an \<open>std::unordered_map\<close> from server id to the number of requests in
  flight), the constructor, \<open>GetNextServer\<close> and the two notifications. The mutex member
  guards the notifications only; this theory models the member functions as atomic steps
  on the table, which is what the lock gives the two notifications and what a sequential
  client gives \<open>GetNextServer\<close>.

  Where the hash table places a new key is not fixed by the C++ standard, so every
  operation that can insert takes the placement policy of \<open>Unordered_Map\<close> as a parameter and
  the lemmas hold for every policy that adds exactly the new entry. The abstraction
  \<open>lc_abs\<close> reads the table as a finite map; \<open>started_spec\<close> and \<open>finished_spec\<close> are the
  notifications on that map, \<open>lc_reachable\<close> the states a client can produce from the
  constructor.
\<close>

section \<open>State and operations\<close>

record LeastConnection =
  lc_connections :: "(server_id, size_t) umap"

text \<open>
  The constructor throws on an empty list and otherwise emplaces every server with count 0
  in list order; \<open>emplace\<close> leaves the table alone when the key is already there, so a
  repeated id gives one entry.
\<close>

definition LeastConnection_new ::
  "(server_id, size_t) placement \<Rightarrow> server_id list \<Rightarrow> LeastConnection result" where
  "LeastConnection_new pl servers =
     (if vector_empty servers then Inl (Runtime_Error ''server list is emply'')
      else Inr \<lparr>lc_connections = foldl (\<lambda>m server. umap_emplace pl server 0 m) [] servers\<rparr>)"

text \<open>
  \<open>GetNextServer\<close> is \<open>std::min_element\<close> over the table with the comparison of the counts,
  then the key of the entry found. The code dereferences the iterator without a test:
  on an empty table that is the dereference of \<open>end()\<close>.
\<close>

definition LeastConnection_GetNextServer ::
  "LeastConnection \<Rightarrow> (server_id \<times> LeastConnection) result" where
  "LeastConnection_GetNextServer s =
     (case min_element (\<lambda>a b. snd a < snd b) (lc_connections s) of
        None \<Rightarrow> Inl Undefined_Behaviour
      | Some least_load_server \<Rightarrow> Inr (fst least_load_server, s))"

text \<open>
  \<open>_connections[server]++\<close>: \<open>operator[]\<close> finds or inserts the entry, then the count is
  stored back incremented. \<open>OnRequestFinished\<close> evaluates \<open>_connections[server]\<close> once for
  the test and once more for the decrement.
\<close>

definition LeastConnection_OnRequestStarted ::
  "(server_id, size_t) placement \<Rightarrow> server_id \<Rightarrow> LeastConnection \<Rightarrow> LeastConnection" where
  "LeastConnection_OnRequestStarted pl server s =
     (case umap_subscript pl server (lc_connections s) of
        (v, m) \<Rightarrow> s\<lparr>lc_connections := umap_assign server (v + 1) m\<rparr>)"

definition LeastConnection_OnRequestFinished ::
  "(server_id, size_t) placement \<Rightarrow> server_id \<Rightarrow> LeastConnection \<Rightarrow> LeastConnection" where
  "LeastConnection_OnRequestFinished pl server s =
     (case umap_subscript pl server (lc_connections s) of
        (v, m) \<Rightarrow>
          if v > 0
          then (case umap_subscript pl server m of
                  (v', m') \<Rightarrow> s\<lparr>lc_connections := umap_assign server (v' - 1) m'\<rparr>)
          else s\<lparr>lc_connections := m\<rparr>)"

definition LeastConnection_vtable ::
  "(server_id, size_t) placement \<Rightarrow> LeastConnection ILoadBalancer_tracking" where
  "LeastConnection_vtable pl =
     \<lparr>GetNextServer = LeastConnection_GetNextServer,
      OnRequestStarted = LeastConnection_OnRequestStarted pl,
      OnRequestFinished = LeastConnection_OnRequestFinished pl\<rparr>"

section \<open>Invariant, abstraction and specification\<close>

text \<open>
  The invariant: the table is not empty and holds every key once. \<open>lc_count\<close> reads a count
  as a natural number, 0 for an id without an entry.
\<close>

definition LeastConnection_inv :: "LeastConnection \<Rightarrow> bool" where
  "LeastConnection_inv s \<longleftrightarrow> lc_connections s \<noteq> [] \<and> umap_ok (lc_connections s)"

definition lc_pool :: "LeastConnection \<Rightarrow> server_id set" where
  "lc_pool s = fst ` set (lc_connections s)"

definition lc_abs :: "LeastConnection \<Rightarrow> (server_id \<rightharpoonup> size_t)" where
  "lc_abs s = map_of (lc_connections s)"

definition lc_count :: "LeastConnection \<Rightarrow> server_id \<Rightarrow> nat" where
  "lc_count s k = (case lc_abs s k of None \<Rightarrow> 0 | Some v \<Rightarrow> unat v)"

definition started_spec :: "server_id \<Rightarrow> (server_id \<rightharpoonup> size_t) \<Rightarrow> (server_id \<rightharpoonup> size_t)" where
  "started_spec k m = m(k \<mapsto> (case m k of None \<Rightarrow> 0 | Some v \<Rightarrow> v) + 1)"

definition finished_spec :: "server_id \<Rightarrow> (server_id \<rightharpoonup> size_t) \<Rightarrow> (server_id \<rightharpoonup> size_t)" where
  "finished_spec k m =
     m(k \<mapsto> (case m k of None \<Rightarrow> 0 | Some v \<Rightarrow> if v = 0 then 0 else v - 1))"

primrec event_spec :: "lb_event \<Rightarrow> (server_id \<rightharpoonup> size_t) \<Rightarrow> (server_id \<rightharpoonup> size_t)" where
  "event_spec (Started k) = started_spec k"
| "event_spec (Finished k) = finished_spec k"

text \<open>The states a sequential client reaches from the constructor.\<close>

inductive lc_reachable ::
  "(server_id, size_t) placement \<Rightarrow> server_id list \<Rightarrow> LeastConnection \<Rightarrow> bool"
  for pl :: "(server_id, size_t) placement" and servers :: "server_id list" where
  constructed: "LeastConnection_new pl servers = Inr s \<Longrightarrow> lc_reachable pl servers s"
| selected: "lc_reachable pl servers s \<Longrightarrow> LeastConnection_GetNextServer s = Inr (x, s') \<Longrightarrow>
     lc_reachable pl servers s'"
| started: "lc_reachable pl servers s \<Longrightarrow>
     lc_reachable pl servers (LeastConnection_OnRequestStarted pl k s)"
| finished: "lc_reachable pl servers s \<Longrightarrow>
     lc_reachable pl servers (LeastConnection_OnRequestFinished pl k s)"

section \<open>Abstraction\<close>

lemma lc_abs_dom: "dom (lc_abs s) = lc_pool s"
  by (simp add: lc_abs_def lc_pool_def dom_map_of_conv_image_fst)

lemma lc_count_member:
  "umap_ok (lc_connections s) \<Longrightarrow> e \<in> set (lc_connections s) \<Longrightarrow> lc_count s (fst e) = unat (snd e)"
  by (cases e) (simp add: lc_count_def lc_abs_def umap_ok_def)

section \<open>The constructor\<close>

lemma emplace_all:
  assumes pl: "placement_ok pl"
  shows "umap_ok m \<Longrightarrow> \<forall>e \<in> set m. snd e = v \<Longrightarrow>
    umap_ok (foldl (\<lambda>m k. umap_emplace pl k v m) m ks)
    \<and> set (map fst (foldl (\<lambda>m k. umap_emplace pl k v m) m ks)) = set (map fst m) \<union> set ks
    \<and> (\<forall>e \<in> set (foldl (\<lambda>m k. umap_emplace pl k v m) m ks). snd e = v)"
proof (induction ks arbitrary: m)
  case Nil
  then show ?case by simp
next
  case (Cons k ks)
  from pl Cons.prems(1) have ok: "umap_ok (umap_emplace pl k v m)"
    and keys: "set (map fst (umap_emplace pl k v m)) = insert k (set (map fst m))"
    by (rule umap_emplace_ok)+
  from pl Cons.prems(2) have vals: "\<forall>e \<in> set (umap_emplace pl k v m). snd e = v"
    by (cases "k \<in> fst ` set m") (auto simp: umap_emplace_present umap_emplace_absent)
  from Cons.IH [OF ok vals] keys show ?case by auto
qed

lemma LeastConnection_new_Inr:
  "LeastConnection_new pl servers = Inr s \<longleftrightarrow>
   servers \<noteq> [] \<and>
   s = \<lparr>lc_connections = foldl (\<lambda>m server. umap_emplace pl server 0 m) [] servers\<rparr>"
  by (auto simp: LeastConnection_new_def vector_empty_def)

lemma LeastConnection_new_props:
  assumes "placement_ok pl" and "LeastConnection_new pl servers = Inr s"
  shows "LeastConnection_inv s" and "lc_pool s = set servers"
    and "lc_abs s = (\<lambda>k. if k \<in> set servers then Some 0 else None)"
proof -
  let ?m = "foldl (\<lambda>m server. umap_emplace pl server 0 m) [] servers"
  from assms(2) have ne: "servers \<noteq> []" and s: "lc_connections s = ?m"
    by (simp_all add: LeastConnection_new_Inr)
  from emplace_all [OF assms(1), of "[]" 0 servers]
  have ok: "umap_ok ?m" and keys: "set (map fst ?m) = set servers"
    and vals: "\<forall>e \<in> set ?m. snd e = 0"
    by (simp_all add: umap_ok_def)
  from keys ne have "?m \<noteq> []" by auto
  with ok show "LeastConnection_inv s" by (simp add: LeastConnection_inv_def s)
  from keys show pool: "lc_pool s = set servers" by (simp add: lc_pool_def s)
  show "lc_abs s = (\<lambda>k. if k \<in> set servers then Some 0 else None)"
  proof
    fix k
    show "lc_abs s k = (if k \<in> set servers then Some 0 else None)"
    proof (cases "map_of ?m k")
      case None
      with keys show ?thesis by (simp add: lc_abs_def s map_of_eq_None_iff)
    next
      case (Some w)
      then have "(k, w) \<in> set ?m" by (rule map_of_SomeD)
      with vals keys have "w = 0" and "k \<in> set servers" by force+
      with Some show ?thesis by (simp add: lc_abs_def s)
    qed
  qed
qed

section \<open>Selection\<close>

lemma LeastConnection_GetNextServer_first:
  assumes "LeastConnection_inv s"
  shows "\<exists>e. LeastConnection_GetNextServer s = Inr (fst e, s) \<and> first_min e (lc_connections s)"
proof -
  from assms have "lc_connections s \<noteq> []" by (simp add: LeastConnection_inv_def)
  then obtain e where "min_element (\<lambda>a b. snd a < snd b) (lc_connections s) = Some e"
    and "first_min e (lc_connections s)"
    using min_element_first by blast
  then show ?thesis
    by (intro exI [of _ e]) (simp add: LeastConnection_GetNextServer_def)
qed

lemma LeastConnection_GetNextServer_pool:
  assumes "LeastConnection_inv s" and "LeastConnection_GetNextServer s = Inr (x, s')"
  shows "x \<in> lc_pool s"
proof -
  from assms(1) obtain e where "LeastConnection_GetNextServer s = Inr (fst e, s)"
    and "first_min e (lc_connections s)"
    using LeastConnection_GetNextServer_first by blast
  with assms(2) show ?thesis by (auto simp: lc_pool_def dest: first_min_in)
qed

lemma LeastConnection_GetNextServer_empty:
  "lc_connections s = [] \<Longrightarrow> LeastConnection_GetNextServer s = Inl Undefined_Behaviour"
  by (simp add: LeastConnection_GetNextServer_def)

lemma first_min_count:
  assumes "umap_ok (lc_connections s)" and "first_min e (lc_connections s)"
  shows "fst e \<in> lc_pool s" and "k \<in> lc_pool s \<Longrightarrow> lc_count s (fst e) \<le> lc_count s k"
proof -
  from assms(2) have e: "e \<in> set (lc_connections s)" by (rule first_min_in)
  then show "fst e \<in> lc_pool s" by (simp add: lc_pool_def)
  assume "k \<in> lc_pool s"
  then obtain x where x: "x \<in> set (lc_connections s)" and k: "k = fst x"
    by (auto simp: lc_pool_def)
  from assms(2) x have "snd e \<le> snd x" by (rule first_min_leD)
  with assms(1) e x show "lc_count s (fst e) \<le> lc_count s k"
    by (simp add: k lc_count_member word_le_nat_alt)
qed

section \<open>Notifications\<close>

lemma LeastConnection_OnRequestStarted_abs:
  assumes "placement_ok pl" and "umap_ok (lc_connections s)"
  shows "lc_abs (LeastConnection_OnRequestStarted pl k s) = started_spec k (lc_abs s)"
    and "umap_ok (lc_connections (LeastConnection_OnRequestStarted pl k s))"
    and "lc_pool (LeastConnection_OnRequestStarted pl k s) = insert k (lc_pool s)"
    and "lc_connections (LeastConnection_OnRequestStarted pl k s) \<noteq> []"
proof -
  obtain v m where sub: "umap_subscript pl k (lc_connections s) = (v, m)"
    by (cases "umap_subscript pl k (lc_connections s)")
  note facts = umap_subscript_ok [OF assms sub]
  from sub have st: "lc_connections (LeastConnection_OnRequestStarted pl k s) = umap_assign k (v + 1) m"
    by (simp add: LeastConnection_OnRequestStarted_def)
  from facts(4) have km: "k \<in> fst ` set m" by auto
  show "lc_abs (LeastConnection_OnRequestStarted pl k s) = started_spec k (lc_abs s)"
    using facts(2,3) km
    by (simp add: lc_abs_def st map_of_umap_assign started_spec_def umap_find_def)
  show "umap_ok (lc_connections (LeastConnection_OnRequestStarted pl k s))"
    using facts(1) by (simp add: st)
  show "lc_pool (LeastConnection_OnRequestStarted pl k s) = insert k (lc_pool s)"
    using facts(4) by (simp add: lc_pool_def st flip: set_map)
  show "lc_connections (LeastConnection_OnRequestStarted pl k s) \<noteq> []"
    using facts(5) by (simp add: st)
qed

lemma LeastConnection_OnRequestFinished_abs:
  assumes "placement_ok pl" and "umap_ok (lc_connections s)"
  shows "lc_abs (LeastConnection_OnRequestFinished pl k s) = finished_spec k (lc_abs s)"
    and "umap_ok (lc_connections (LeastConnection_OnRequestFinished pl k s))"
    and "lc_pool (LeastConnection_OnRequestFinished pl k s) = insert k (lc_pool s)"
    and "lc_connections (LeastConnection_OnRequestFinished pl k s) \<noteq> []"
proof -
  obtain v m where sub: "umap_subscript pl k (lc_connections s) = (v, m)"
    by (cases "umap_subscript pl k (lc_connections s)")
  note facts = umap_subscript_ok [OF assms sub]
  from facts(2) have find: "umap_find k m = Some v" by (simp add: umap_find_def)
  then have sub2: "umap_subscript pl k m = (v, m)" by (rule umap_subscript_present)
  from facts(4) have km: "k \<in> fst ` set m" by auto
  from sub sub2 have fin: "lc_connections (LeastConnection_OnRequestFinished pl k s) =
      (if v > 0 then umap_assign k (v - 1) m else m)"
    by (simp add: LeastConnection_OnRequestFinished_def)
  show "lc_abs (LeastConnection_OnRequestFinished pl k s) = finished_spec k (lc_abs s)"
    using facts(2,3) km
    by (auto simp: lc_abs_def fin map_of_umap_assign finished_spec_def umap_find_def
        word_neq_0_conv [symmetric] split: option.splits)
  show "umap_ok (lc_connections (LeastConnection_OnRequestFinished pl k s))"
    using facts(1) by (simp add: fin)
  show "lc_pool (LeastConnection_OnRequestFinished pl k s) = insert k (lc_pool s)"
    using facts(4) by (simp add: lc_pool_def fin flip: set_map)
  show "lc_connections (LeastConnection_OnRequestFinished pl k s) \<noteq> []"
    using facts(5) by (simp add: fin)
qed


lemma lc_count_started:
  assumes "placement_ok pl" and "umap_ok (lc_connections s)"
  shows "lc_count (LeastConnection_OnRequestStarted pl k s) k' =
    (if k' = k then (lc_count s k + 1) mod 2 ^ 64 else lc_count s k')"
  using LeastConnection_OnRequestStarted_abs(1) [OF assms, of k]
  by (simp add: lc_count_def started_spec_def unat_word_ariths(1) split: option.splits)

lemma lc_count_finished:
  assumes "placement_ok pl" and "umap_ok (lc_connections s)"
  shows "lc_count (LeastConnection_OnRequestFinished pl k s) k' =
    (if k' = k then lc_count s k - 1 else lc_count s k')"
  using LeastConnection_OnRequestFinished_abs(1) [OF assms, of k]
  by (simp add: lc_count_def finished_spec_def unat_pred split: option.splits)

lemma lc_count_absent: "k \<notin> lc_pool s \<Longrightarrow> lc_count s k = 0"
  by (simp add: lc_count_def lc_abs_def lc_pool_def map_of_eq_None_iff [THEN iffD2])

lemma LeastConnection_notify_inv:
  assumes "placement_ok pl" and "LeastConnection_inv s"
  shows "LeastConnection_inv (LeastConnection_OnRequestStarted pl k s)"
    and "LeastConnection_inv (LeastConnection_OnRequestFinished pl k s)"
  using assms
  by (simp_all add: LeastConnection_inv_def LeastConnection_OnRequestStarted_abs
      LeastConnection_OnRequestFinished_abs)

lemma lc_pool_notify:
  assumes "placement_ok pl" and "LeastConnection_inv s"
  shows "lc_pool (LeastConnection_OnRequestStarted pl k s) = insert k (lc_pool s)"
    and "lc_pool (LeastConnection_OnRequestFinished pl k s) = insert k (lc_pool s)"
  using assms
  by (simp_all add: LeastConnection_inv_def LeastConnection_OnRequestStarted_abs
      LeastConnection_OnRequestFinished_abs)

lemma LeastConnection_GetNextServer_state:
  "LeastConnection_GetNextServer s = Inr (x, s') \<Longrightarrow> s' = s"
  by (auto simp: LeastConnection_GetNextServer_def split: option.splits)

lemma lc_reachable_inv:
  assumes "placement_ok pl" and "lc_reachable pl servers s"
  shows "LeastConnection_inv s \<and> set servers \<subseteq> lc_pool s"
  using assms(2)
proof (induction rule: lc_reachable.induct)
  case (constructed s)
  with assms(1) show ?case by (simp add: LeastConnection_new_props)
next
  case (selected s x s')
  then show ?case by (auto dest: LeastConnection_GetNextServer_state)
next
  case (started s k)
  with assms(1) show ?case
    by (auto simp: LeastConnection_notify_inv lc_pool_notify)
next
  case (finished s k)
  with assms(1) show ?case
    by (auto simp: LeastConnection_notify_inv lc_pool_notify)
qed

text \<open>Events of other servers and the exact effect of a start followed by a finish.\<close>

lemma LeastConnection_started_known:
  assumes "umap_find k (lc_connections s) = Some v"
  shows "LeastConnection_OnRequestStarted pl k s =
    s\<lparr>lc_connections := umap_assign k (v + 1) (lc_connections s)\<rparr>"
  using assms by (simp add: LeastConnection_OnRequestStarted_def umap_subscript_present)

lemma LeastConnection_finished_known:
  assumes "umap_find k (lc_connections s) = Some v"
  shows "LeastConnection_OnRequestFinished pl k s =
    (if v = 0 then s else s\<lparr>lc_connections := umap_assign k (v - 1) (lc_connections s)\<rparr>)"
  using assms
  by (simp add: LeastConnection_OnRequestFinished_def umap_subscript_present word_neq_0_conv)

lemma lc_start_finish:
  assumes "umap_find k (lc_connections s) = Some v" and "v + 1 \<noteq> 0"
  shows "LeastConnection_OnRequestFinished pl k (LeastConnection_OnRequestStarted pl k s) = s"
proof -
  let ?t = "s\<lparr>lc_connections := umap_assign k (v + 1) (lc_connections s)\<rparr>"
  from assms(1) have "k \<in> fst ` set (lc_connections s)" by (rule umap_find_Some_key)
  then have "umap_find k (lc_connections ?t) = Some (v + 1)"
    by (simp add: umap_find_assign)
  with assms(2) have "LeastConnection_OnRequestFinished pl k ?t =
      ?t\<lparr>lc_connections := umap_assign k v (lc_connections ?t)\<rparr>"
    by (simp add: LeastConnection_finished_known)
  with assms(1) show ?thesis
    by (simp add: LeastConnection_started_known umap_assign_find)
qed

lemma lc_start_finish_pool:
  assumes "k \<in> lc_pool s" and "lc_count s k < 2 ^ 64 - 1"
  shows "LeastConnection_OnRequestFinished pl k (LeastConnection_OnRequestStarted pl k s) = s"
proof -
  from assms(1) obtain v where find: "umap_find k (lc_connections s) = Some v"
    by (auto simp: lc_abs_def umap_find_def simp flip: lc_abs_dom)
  with assms(2) have "unat v < 2 ^ 64 - 1"
    by (simp add: lc_count_def lc_abs_def umap_find_def)
  then have "unat (v + 1) = Suc (unat v)"
    by (intro unat_succ_below [of v "2 ^ 64 - 1"]) simp_all
  then have "v + 1 \<noteq> 0" by (metis unat_0 nat.simps(3))
  with find show ?thesis by (rule lc_start_finish)
qed

lemma lc_notify_ok:
  assumes "placement_ok pl" and "umap_ok (lc_connections s)"
  shows "umap_ok (lc_connections (notify (LeastConnection_vtable pl) e s))"
  using assms
  by (cases e) (simp_all add: LeastConnection_vtable_def LeastConnection_OnRequestStarted_abs
      LeastConnection_OnRequestFinished_abs)

lemma lc_accounting:
  assumes pl: "placement_ok pl"
  shows "umap_ok (lc_connections s) \<Longrightarrow>
    \<forall>n \<le> length es. count_list (take n es) (Finished k) \<le> lc_count s k + count_list (take n es) (Started k) \<Longrightarrow>
    lc_count s k + count_list es (Started k) < 2 ^ 64 \<Longrightarrow>
    lc_count (notify_all (LeastConnection_vtable pl) es s) k + count_list es (Finished k) =
      lc_count s k + count_list es (Started k)"
proof (induction es arbitrary: s)
  case Nil
  then show ?case by simp
next
  case (Cons e es)
  let ?t = "notify (LeastConnection_vtable pl) e s"
  have ok: "umap_ok (lc_connections ?t)"
    using pl Cons.prems(1) by (rule lc_notify_ok)
  have pre: "count_list (e # take n es) (Finished k) \<le>
      lc_count s k + count_list (e # take n es) (Started k)" if "n \<le> length es" for n
    using Cons.prems(2) [rule_format, of "Suc n"] that by simp
  from pre [of 0] have first: "e = Finished k \<Longrightarrow> 0 < lc_count s k" by simp
  have cnt: "lc_count ?t k + (if e = Finished k then 1 else 0) =
      lc_count s k + (if e = Started k then 1 else 0)"
    using pl Cons.prems(1,3) first
    by (cases e) (auto simp: LeastConnection_vtable_def lc_count_started lc_count_finished)
  have "\<forall>n \<le> length es. count_list (take n es) (Finished k) \<le>
      lc_count ?t k + count_list (take n es) (Started k)"
  proof (intro allI impI)
    fix n
    assume "n \<le> length es"
    from pre [OF this] cnt
    show "count_list (take n es) (Finished k) \<le> lc_count ?t k + count_list (take n es) (Started k)"
      by (auto split: if_splits)
  qed
  moreover have "lc_count ?t k + count_list es (Started k) < 2 ^ 64"
    using Cons.prems(3) cnt by (auto split: if_splits)
  ultimately have "lc_count (notify_all (LeastConnection_vtable pl) es ?t) k +
      count_list es (Finished k) = lc_count ?t k + count_list es (Started k)"
    by (rule Cons.IH [OF ok])
  with cnt show ?case by (auto split: if_splits)
qed

lemma lc_count_pool: "k \<in> lc_pool s \<Longrightarrow> lc_count s k = unat (the (lc_abs s k))"
  by (auto simp: lc_count_def simp flip: lc_abs_dom)

section \<open>Traces of notifications\<close>

lemma lc_abs_notify:
  assumes "placement_ok pl" and "umap_ok (lc_connections s)"
  shows "lc_abs (notify (LeastConnection_vtable pl) e s) = event_spec e (lc_abs s)"
  using assms
  by (cases e) (simp_all add: LeastConnection_vtable_def LeastConnection_OnRequestStarted_abs
      LeastConnection_OnRequestFinished_abs)

lemma lc_abs_notify_all:
  assumes "placement_ok pl"
  shows "umap_ok (lc_connections s) \<Longrightarrow>
    lc_abs (notify_all (LeastConnection_vtable pl) es s) = fold event_spec es (lc_abs s)
    \<and> umap_ok (lc_connections (notify_all (LeastConnection_vtable pl) es s))"
proof (induction es arbitrary: s)
  case Nil
  then show ?case by simp
next
  case (Cons e es)
  from assms Cons.prems have "umap_ok (lc_connections (notify (LeastConnection_vtable pl) e s))"
    by (rule lc_notify_ok)
  from Cons.IH [OF this] assms Cons.prems show ?case by (simp add: lc_abs_notify)
qed

lemma lc_pool_notify_all:
  assumes "placement_ok pl" and "umap_ok (lc_connections s)"
  shows "lc_pool (notify_all (LeastConnection_vtable pl) es s) = dom (fold event_spec es (lc_abs s))"
  using lc_abs_notify_all [OF assms, of es] by (simp flip: lc_abs_dom)

text \<open>The two traces of the worked example, evaluated on the map of counts.\<close>

lemma spec_example_maps:
  "fold event_spec [Started ''A'', Started ''B'', Started ''A'']
     (\<lambda>k. if k \<in> set [''A'', ''B'', ''C''] then Some 0 else None) =
   [''A'' \<mapsto> 2, ''B'' \<mapsto> 1, ''C'' \<mapsto> 0]"
  "fold event_spec [Finished ''A'', Finished ''A''] [''A'' \<mapsto> 2, ''B'' \<mapsto> 1, ''C'' \<mapsto> 0] =
   [''A'' \<mapsto> 0, ''B'' \<mapsto> 1, ''C'' \<mapsto> 0]"
  by (simp_all add: started_spec_def finished_spec_def fun_eq_iff)

section \<open>Properties\<close>

text \<open>
  C2 (least-connections selection). In a state that satisfies the invariant
  \<open>GetNextServer\<close> returns, leaves the object unchanged, and the server it returns is a key
  of the table whose count is less than or equal to the count of every key.
\<close>

theorem LeastConnection_GetNextServer_minimal:
  assumes "LeastConnection_inv s"
  shows "\<exists>x. LeastConnection_GetNextServer s = Inr (x, s) \<and> x \<in> lc_pool s
    \<and> (\<forall>k \<in> lc_pool s. lc_count s x \<le> lc_count s k)"
proof -
  from assms obtain e where sel: "LeastConnection_GetNextServer s = Inr (fst e, s)"
    and first: "first_min e (lc_connections s)"
    using LeastConnection_GetNextServer_first by blast
  from assms have "umap_ok (lc_connections s)" by (simp add: LeastConnection_inv_def)
  from first_min_count [OF this first] sel show ?thesis by blast
qed

theorem LeastConnection_GetNextServer_minimal_witness:
  "LeastConnection_inv \<lparr>lc_connections = [(''A'', 2), (''B'', 1), (''C'', 0)]\<rparr>
   \<and> LeastConnection_GetNextServer \<lparr>lc_connections = [(''A'', 2), (''B'', 1), (''C'', 0)]\<rparr> =
       Inr (''C'', \<lparr>lc_connections = [(''A'', 2), (''B'', 1), (''C'', 0)]\<rparr>)
   \<and> lc_count \<lparr>lc_connections = [(''A'', 2), (''B'', 1), (''C'', 0)]\<rparr> ''C''
       \<le> lc_count \<lparr>lc_connections = [(''A'', 2), (''B'', 1), (''C'', 0)]\<rparr> ''B''
   \<and> lc_count \<lparr>lc_connections = [(''A'', 2), (''B'', 1), (''C'', 0)]\<rparr> ''C''
       \<le> lc_count \<lparr>lc_connections = [(''A'', 2), (''B'', 1), (''C'', 0)]\<rparr> ''A''"
  using LeastConnection_GetNextServer_minimal
    [of "\<lparr>lc_connections = [(''A'', 2), (''B'', 1), (''C'', 0)]\<rparr>"]
  by (simp add: LeastConnection_inv_def umap_ok_def lc_pool_def LeastConnection_GetNextServer_def
      min_element_def)

text \<open>
  C6 (a count never goes below zero). \<open>OnRequestFinished k\<close> lowers the count of \<open>k\<close> by one
  when it is positive, leaves it at 0 when it is 0 (the subtraction on \<open>nat\<close> is truncated, the
  one on \<open>size_t\<close> is never executed at 0), and changes the count of no other server.
\<close>

theorem LeastConnection_OnRequestFinished_floor:
  assumes "placement_ok pl" and "umap_ok (lc_connections s)"
  shows "lc_count (LeastConnection_OnRequestFinished pl k s) k = lc_count s k - 1
    \<and> (\<forall>k'. k' \<noteq> k \<longrightarrow> lc_count (LeastConnection_OnRequestFinished pl k s) k' = lc_count s k')"
  using assms by (simp add: lc_count_finished)

theorem LeastConnection_OnRequestFinished_floor_witness:
  "placement_ok (place_front :: (server_id, size_t) placement)
   \<and> umap_ok [(''A'', 0 :: size_t), (''B'', 1)]
   \<and> lc_count (LeastConnection_OnRequestFinished place_front ''A''
         \<lparr>lc_connections = [(''A'', 0), (''B'', 1)]\<rparr>) ''A'' = 0
   \<and> lc_count (LeastConnection_OnRequestFinished place_front ''A''
         \<lparr>lc_connections = [(''A'', 0), (''B'', 1)]\<rparr>) ''B'' = 1"
  using LeastConnection_OnRequestFinished_floor [of place_front
      "\<lparr>lc_connections = [(''A'', 0), (''B'', 1)]\<rparr>" "''A''"]
  by (simp add: umap_ok_def lc_count_def lc_abs_def)

text \<open>
  C7 (an unknown id becomes a server). When every server of the table has a request in
  flight, \<open>OnRequestFinished\<close> for an id that is not in the table inserts it with count 0, and
  the next \<open>GetNextServer\<close> returns that id: traffic is directed to a server that was never
  configured.
\<close>

theorem LeastConnection_unknown_server_selected:
  assumes "placement_ok pl" and "LeastConnection_inv s" and "k \<notin> lc_pool s"
    and "\<forall>k' \<in> lc_pool s. 0 < lc_count s k'"
  shows "LeastConnection_GetNextServer (LeastConnection_OnRequestFinished pl k s) =
    Inr (k, LeastConnection_OnRequestFinished pl k s)"
proof -
  let ?t = "LeastConnection_OnRequestFinished pl k s"
  from assms(1,2) have inv: "LeastConnection_inv ?t" and pool: "lc_pool ?t = insert k (lc_pool s)"
    by (rule LeastConnection_notify_inv lc_pool_notify)+
  from assms(2) have ok: "umap_ok (lc_connections s)" by (simp add: LeastConnection_inv_def)
  from inv obtain e where sel: "LeastConnection_GetNextServer ?t = Inr (fst e, ?t)"
    and first: "first_min e (lc_connections ?t)"
    using LeastConnection_GetNextServer_first by blast
  from inv have "umap_ok (lc_connections ?t)" by (simp add: LeastConnection_inv_def)
  from first_min_count [OF this first] pool
  have mem: "fst e \<in> insert k (lc_pool s)" and le: "lc_count ?t (fst e) \<le> lc_count ?t k"
    by simp_all
  from assms(1,3) ok have "lc_count ?t k = 0"
    by (simp add: lc_count_finished lc_count_absent)
  with le have zero: "lc_count ?t (fst e) = 0" by simp
  have "fst e = k"
  proof (rule ccontr)
    assume ne: "fst e \<noteq> k"
    with mem have "fst e \<in> lc_pool s" by simp
    with assms(4) have "0 < lc_count s (fst e)" by blast
    with assms(1) ok ne zero show False by (simp add: lc_count_finished)
  qed
  with sel show ?thesis by simp
qed

theorem LeastConnection_unknown_server_selected_witness:
  "placement_ok (place_back :: (server_id, size_t) placement)
   \<and> LeastConnection_inv \<lparr>lc_connections = [(''A'', 1), (''B'', 2)]\<rparr>
   \<and> ''ghost'' \<notin> lc_pool \<lparr>lc_connections = [(''A'', 1), (''B'', 2)]\<rparr>
   \<and> LeastConnection_GetNextServer (LeastConnection_OnRequestFinished place_back ''ghost''
         \<lparr>lc_connections = [(''A'', 1), (''B'', 2)]\<rparr>) =
       Inr (''ghost'', \<lparr>lc_connections = [(''A'', 1), (''B'', 2), (''ghost'', 0)]\<rparr>)"
  using LeastConnection_unknown_server_selected [of place_back
      "\<lparr>lc_connections = [(''A'', 1), (''B'', 2)]\<rparr>" "''ghost''"]
  by (simp add: LeastConnection_inv_def umap_ok_def lc_pool_def lc_count_def lc_abs_def
      LeastConnection_OnRequestFinished_def umap_eval)

text \<open>
  C10 (refinement of the map specification). Read through \<open>lc_abs\<close>, the two notifications
  are \<open>started_spec\<close> and \<open>finished_spec\<close> on the finite map of counts, whatever the
  placement policy of the hash table, and \<open>GetNextServer\<close> returns a key of the map with a
  minimal value.
\<close>

theorem LeastConnection_refines_map:
  assumes "placement_ok pl" and "LeastConnection_inv s"
  shows "lc_abs (LeastConnection_OnRequestStarted pl k s) = started_spec k (lc_abs s)
    \<and> lc_abs (LeastConnection_OnRequestFinished pl k s) = finished_spec k (lc_abs s)
    \<and> (\<exists>x. LeastConnection_GetNextServer s = Inr (x, s) \<and> x \<in> dom (lc_abs s)
          \<and> (\<forall>k \<in> dom (lc_abs s). the (lc_abs s x) \<le> the (lc_abs s k)))"
proof -
  from assms(2) have ok: "umap_ok (lc_connections s)" by (simp add: LeastConnection_inv_def)
  from assms(2) obtain e where sel: "LeastConnection_GetNextServer s = Inr (fst e, s)"
    and first: "first_min e (lc_connections s)"
    using LeastConnection_GetNextServer_first by blast
  from first_min_count [OF ok first]
  have "fst e \<in> dom (lc_abs s)"
    and "\<forall>k \<in> dom (lc_abs s). the (lc_abs s (fst e)) \<le> the (lc_abs s k)"
    by (simp_all add: lc_abs_dom lc_count_pool word_le_nat_alt)
  with sel assms(1) ok show ?thesis
    by (auto simp: LeastConnection_OnRequestStarted_abs LeastConnection_OnRequestFinished_abs)
qed

theorem LeastConnection_refines_map_witness:
  "placement_ok (place_front :: (server_id, size_t) placement)
   \<and> LeastConnection_inv \<lparr>lc_connections = [(''A'', 1), (''B'', 0)]\<rparr>
   \<and> lc_abs (LeastConnection_OnRequestStarted place_front ''A''
        \<lparr>lc_connections = [(''A'', 1), (''B'', 0)]\<rparr>) = [''A'' \<mapsto> 2, ''B'' \<mapsto> 0]
   \<and> lc_abs (LeastConnection_OnRequestFinished place_front ''B''
        \<lparr>lc_connections = [(''A'', 1), (''B'', 0)]\<rparr>) = [''A'' \<mapsto> 1, ''B'' \<mapsto> 0]"
  using LeastConnection_refines_map [of place_front "\<lparr>lc_connections = [(''A'', 1), (''B'', 0)]\<rparr>" "''A''"]
    LeastConnection_refines_map [of place_front "\<lparr>lc_connections = [(''A'', 1), (''B'', 0)]\<rparr>" "''B''"]
  by (auto simp: LeastConnection_inv_def umap_ok_def lc_abs_def started_spec_def finished_spec_def)

text \<open>
  C8 (reachable states). Every state that a sequential client reaches from the constructor by
  selections and notifications satisfies the invariant, still holds every configured
  server, and \<open>GetNextServer\<close> returns in it: the dereference of \<open>end()\<close> is unreachable.
\<close>

theorem LeastConnection_reachable:
  assumes "placement_ok pl" and "lc_reachable pl servers s"
  shows "LeastConnection_inv s \<and> set servers \<subseteq> lc_pool s
    \<and> (\<exists>x. LeastConnection_GetNextServer s = Inr (x, s))"
proof -
  from assms have inv: "LeastConnection_inv s" and sub: "set servers \<subseteq> lc_pool s"
    by (simp_all add: lc_reachable_inv)
  from LeastConnection_GetNextServer_first [OF inv] inv sub show ?thesis by blast
qed

theorem LeastConnection_reachable_witness:
  "placement_ok (place_front :: (server_id, size_t) placement)
   \<and> lc_reachable place_front [''A'', ''B'']
        (LeastConnection_OnRequestStarted place_front ''B'' \<lparr>lc_connections = [(''B'', 0), (''A'', 0)]\<rparr>)
   \<and> LeastConnection_GetNextServer
        (LeastConnection_OnRequestStarted place_front ''B'' \<lparr>lc_connections = [(''B'', 0), (''A'', 0)]\<rparr>) =
      Inr (''A'', \<lparr>lc_connections = [(''B'', 1), (''A'', 0)]\<rparr>)"
proof -
  have new: "LeastConnection_new place_front [''A'', ''B''] =
      Inr \<lparr>lc_connections = [(''B'', 0), (''A'', 0)]\<rparr>"
    by (simp add: LeastConnection_new_Inr umap_eval)
  then have reach: "lc_reachable place_front [''A'', ''B'']
      (LeastConnection_OnRequestStarted place_front ''B'' \<lparr>lc_connections = [(''B'', 0), (''A'', 0)]\<rparr>)"
    by (intro lc_reachable.started lc_reachable.constructed)
  have "placement_ok (place_front :: (server_id, size_t) placement)" by simp
  from LeastConnection_reachable [OF this reach] reach show ?thesis
    by (simp add: LeastConnection_OnRequestStarted_def umap_eval
        LeastConnection_GetNextServer_def min_element_def)
qed

text \<open>
  C18 (tie-break). \<open>GetNextServer\<close> returns the key of \<open>arg_min_list snd\<close> of the table, which is
  the first entry in iteration order that has the minimal count: among servers with equal
  load the iteration order of the hash table decides, not the order of the configured list.
\<close>

theorem LeastConnection_tie_break:
  assumes "LeastConnection_inv s"
  shows "LeastConnection_GetNextServer s = Inr (fst (arg_min_list snd (lc_connections s)), s)
    \<and> first_min (arg_min_list snd (lc_connections s)) (lc_connections s)"
proof -
  from assms have ne: "lc_connections s \<noteq> []" by (simp add: LeastConnection_inv_def)
  then have eq: "min_element (\<lambda>a b. snd a < snd b) (lc_connections s) =
      Some (arg_min_list snd (lc_connections s))"
    by (rule min_element_arg_min_list)
  with min_element_first [OF ne] show ?thesis
    by (auto simp: LeastConnection_GetNextServer_def)
qed

theorem LeastConnection_tie_break_witness:
  "LeastConnection_inv \<lparr>lc_connections = [(''A'', 1), (''B'', 0), (''C'', 0)]\<rparr>
   \<and> LeastConnection_GetNextServer \<lparr>lc_connections = [(''A'', 1), (''B'', 0), (''C'', 0)]\<rparr> =
       Inr (''B'', \<lparr>lc_connections = [(''A'', 1), (''B'', 0), (''C'', 0)]\<rparr>)"
  using LeastConnection_tie_break [of "\<lparr>lc_connections = [(''A'', 1), (''B'', 0), (''C'', 0)]\<rparr>"]
  by (simp add: LeastConnection_inv_def umap_ok_def)

text \<open>
  C24 (start then finish). For a server of the table whose count is below \<open>2 ^ 64 - 1\<close>,
  \<open>OnRequestStarted\<close> followed by \<open>OnRequestFinished\<close> restores the object exactly, order
  of the table included.
\<close>

theorem LeastConnection_start_finish_roundtrip:
  assumes "k \<in> lc_pool s" and "lc_count s k < 2 ^ 64 - 1"
  shows "LeastConnection_OnRequestFinished pl k (LeastConnection_OnRequestStarted pl k s) = s"
  using assms by (rule lc_start_finish_pool)

theorem LeastConnection_start_finish_roundtrip_witness:
  "''B'' \<in> lc_pool \<lparr>lc_connections = [(''A'', 3), (''B'', 7)]\<rparr>
   \<and> lc_count \<lparr>lc_connections = [(''A'', 3), (''B'', 7)]\<rparr> ''B'' < 2 ^ 64 - 1
   \<and> LeastConnection_OnRequestFinished place_front ''B''
       (LeastConnection_OnRequestStarted place_front ''B'' \<lparr>lc_connections = [(''A'', 3), (''B'', 7)]\<rparr>) =
     \<lparr>lc_connections = [(''A'', 3), (''B'', 7)]\<rparr>"
  using LeastConnection_start_finish_roundtrip
    [of "''B''" "\<lparr>lc_connections = [(''A'', 3), (''B'', 7)]\<rparr>" place_front]
  by (simp add: lc_pool_def lc_count_def lc_abs_def)

text \<open>
  C25 (a start counts one request). \<open>OnRequestStarted k\<close> raises the count of \<open>k\<close> by one
  modulo \<open>2 ^ 64\<close> and changes the count of no other server; at \<open>2 ^ 64 - 1\<close> the count
  wraps to 0.
\<close>

theorem LeastConnection_OnRequestStarted_count:
  assumes "placement_ok pl" and "umap_ok (lc_connections s)"
  shows "lc_count (LeastConnection_OnRequestStarted pl k s) k = (lc_count s k + 1) mod 2 ^ 64
    \<and> (\<forall>k'. k' \<noteq> k \<longrightarrow> lc_count (LeastConnection_OnRequestStarted pl k s) k' = lc_count s k')"
  using assms by (simp add: lc_count_started)

theorem LeastConnection_OnRequestStarted_count_witness:
  "placement_ok (place_front :: (server_id, size_t) placement)
   \<and> umap_ok [(''A'', - 1 :: size_t), (''B'', 1)]
   \<and> lc_count \<lparr>lc_connections = [(''A'', - 1), (''B'', 1)]\<rparr> ''A'' = 2 ^ 64 - 1
   \<and> lc_count (LeastConnection_OnRequestStarted place_front ''A''
         \<lparr>lc_connections = [(''A'', - 1), (''B'', 1)]\<rparr>) ''A'' = 0"
  using LeastConnection_OnRequestStarted_count [of place_front
      "\<lparr>lc_connections = [(''A'', - 1), (''B'', 1)]\<rparr>" "''A''"]
  by (simp add: umap_ok_def lc_count_def lc_abs_def unat_minus_1)

text \<open>
  C16 (accounting over a trace). Along a sequence of notifications in which, for server
  \<open>k\<close>, no prefix has more finishes than the initial count plus its starts, and the
  starts do not overflow the counter, the final count of \<open>k\<close> is the initial count plus the
  starts minus the finishes of \<open>k\<close>. An interleaving of workers that each start and then
  finish is such a sequence.
\<close>

theorem LeastConnection_accounting:
  assumes "placement_ok pl" and "umap_ok (lc_connections s)"
    and "\<forall>n \<le> length es. count_list (take n es) (Finished k)
           \<le> lc_count s k + count_list (take n es) (Started k)"
    and "lc_count s k + count_list es (Started k) < 2 ^ 64"
  shows "lc_count (notify_all (LeastConnection_vtable pl) es s) k =
    lc_count s k + count_list es (Started k) - count_list es (Finished k)"
  using lc_accounting [OF assms] by simp

theorem LeastConnection_accounting_witness:
  "placement_ok (place_front :: (server_id, size_t) placement)
   \<and> umap_ok [(''A'', 0 :: size_t), (''B'', 0)]
   \<and> lc_count (notify_all (LeastConnection_vtable place_front)
        [Started ''A'', Started ''B'', Started ''A'', Finished ''A'', Finished ''B'', Finished ''A'']
        \<lparr>lc_connections = [(''A'', 0), (''B'', 0)]\<rparr>) ''A'' = 0"
proof -
  let ?es = "[Started ''A'', Started ''B'', Started ''A'', Finished ''A'', Finished ''B'', Finished ''A'']"
  have pl: "placement_ok (place_front :: (server_id, size_t) placement)" by simp
  have ok: "umap_ok (lc_connections \<lparr>lc_connections = [(''A'', 0 :: size_t), (''B'', 0)]\<rparr>)"
    by (simp add: umap_ok_def)
  have c0: "lc_count \<lparr>lc_connections = [(''A'', 0), (''B'', 0)]\<rparr> ''A'' = 0"
    by (simp add: lc_count_def lc_abs_def)
  have pre: "\<forall>n \<le> length ?es. count_list (take n ?es) (Finished ''A'')
      \<le> lc_count \<lparr>lc_connections = [(''A'', 0), (''B'', 0)]\<rparr> ''A''
        + count_list (take n ?es) (Started ''A'')"
    by (simp add: c0 take_Cons' le_Suc_eq all_conj_distrib numeral_eq_Suc)
  have bound: "lc_count \<lparr>lc_connections = [(''A'', 0), (''B'', 0)]\<rparr> ''A''
      + count_list ?es (Started ''A'') < 2 ^ 64"
    by (simp add: c0)
  from LeastConnection_accounting [OF pl ok pre bound] pl ok show ?thesis
    by (simp add: c0)
qed

text \<open>
  C26 (construction). A successful construction gives a state that satisfies the invariant,
  whose keys are the set of the configured servers, with all counts 0 and one entry for
  each distinct id.
\<close>

theorem LeastConnection_new_pool:
  assumes "placement_ok pl" and "LeastConnection_new pl servers = Inr s"
  shows "LeastConnection_inv s \<and> lc_pool s = set servers
    \<and> (\<forall>k. lc_count s k = 0) \<and> length (lc_connections s) = card (set servers)"
proof -
  from assms have inv: "LeastConnection_inv s" and pool: "lc_pool s = set servers"
    and abs: "lc_abs s = (\<lambda>k. if k \<in> set servers then Some 0 else None)"
    by (rule LeastConnection_new_props)+
  from inv have "distinct (map fst (lc_connections s))"
    by (simp add: LeastConnection_inv_def umap_ok_def)
  from distinct_card [OF this] pool have "length (lc_connections s) = card (set servers)"
    by (simp add: lc_pool_def)
  with inv pool abs show ?thesis by (simp add: lc_count_def)
qed

theorem LeastConnection_new_pool_witness:
  "placement_ok (place_back :: (server_id, size_t) placement)
   \<and> LeastConnection_new place_back [''A'', ''B'', ''A''] =
       Inr \<lparr>lc_connections = [(''A'', 0), (''B'', 0)]\<rparr>
   \<and> lc_pool \<lparr>lc_connections = [(''A'', 0), (''B'', 0)]\<rparr> = {''A'', ''B''}"
  using LeastConnection_new_pool [of place_back "[''A'', ''B'', ''A'']"
      "\<lparr>lc_connections = [(''A'', 0), (''B'', 0)]\<rparr>"]
  by (simp add: LeastConnection_new_Inr umap_eval
      insert_commute)

text \<open>
  C29 (the worked example of the specification). From the pool A, B, C, after start(A),
  start(B), start(A) the counts are A:2, B:1, C:0 and \<open>GetNextServer\<close> returns C; after two
  more finish(A) the counts are A:0, B:1, C:0; for every placement policy.
\<close>

theorem LeastConnection_spec_example:
  assumes "placement_ok pl" and "LeastConnection_new pl [''A'', ''B'', ''C''] = Inr s"
  shows "let lb = LeastConnection_vtable pl;
             s1 = notify_all lb [Started ''A'', Started ''B'', Started ''A''] s;
             s2 = notify_all lb [Finished ''A'', Finished ''A''] s1
         in lc_abs s1 = [''A'' \<mapsto> 2, ''B'' \<mapsto> 1, ''C'' \<mapsto> 0]
          \<and> GetNextServer lb s1 = Inr (''C'', s1)
          \<and> lc_abs s2 = [''A'' \<mapsto> 0, ''B'' \<mapsto> 1, ''C'' \<mapsto> 0]"
proof -
  define s1 where "s1 = notify_all (LeastConnection_vtable pl)
    [Started ''A'', Started ''B'', Started ''A''] s"
  define s2 where "s2 = notify_all (LeastConnection_vtable pl) [Finished ''A'', Finished ''A''] s1"
  from assms have "LeastConnection_inv s"
    and abs: "lc_abs s = (\<lambda>k. if k \<in> set [''A'', ''B'', ''C''] then Some 0 else None)"
    by (rule LeastConnection_new_props)+
  then have ok: "umap_ok (lc_connections s)" by (simp add: LeastConnection_inv_def)
  from lc_abs_notify_all [OF assms(1) ok, of "[Started ''A'', Started ''B'', Started ''A'']"]
  have abs1: "lc_abs s1 = [''A'' \<mapsto> 2, ''B'' \<mapsto> 1, ''C'' \<mapsto> 0]"
    and ok1: "umap_ok (lc_connections s1)"
    unfolding s1_def abs spec_example_maps by (rule conjunct1, rule conjunct2)
  from lc_abs_notify_all [OF assms(1) ok1, of "[Finished ''A'', Finished ''A'']"]
  have abs2: "lc_abs s2 = [''A'' \<mapsto> 0, ''B'' \<mapsto> 1, ''C'' \<mapsto> 0]"
    unfolding s2_def abs1 spec_example_maps by (rule conjunct1)
  have C: "lc_abs s1 ''C'' = Some 0" and A: "lc_abs s1 ''A'' = Some 2"
    and B: "lc_abs s1 ''B'' = Some 1"
    by (simp_all add: abs1)
  have pool1: "lc_pool s1 = {''C'', ''B'', ''A''}"
    unfolding lc_abs_dom [symmetric] abs1 by simp
  have "lc_connections s1 \<noteq> []"
  proof
    assume "lc_connections s1 = []"
    then have "lc_pool s1 = {}" by (simp add: lc_pool_def)
    with pool1 show False by simp
  qed
  with ok1 have "LeastConnection_inv s1" by (simp add: LeastConnection_inv_def)
  then obtain e where sel: "LeastConnection_GetNextServer s1 = Inr (fst e, s1)"
    and first: "first_min e (lc_connections s1)"
    using LeastConnection_GetNextServer_first by blast
  from first_min_count [OF ok1 first] pool1
  have mem: "fst e \<in> {''C'', ''B'', ''A''}" and le: "lc_count s1 (fst e) \<le> lc_count s1 ''C''"
    by simp_all
  have "fst e \<noteq> ''A''" and "fst e \<noteq> ''B''"
    using le by (auto simp: lc_count_def A B C)
  with mem have "fst e = ''C''" by simp
  with sel have "GetNextServer (LeastConnection_vtable pl) s1 = Inr (''C'', s1)"
    by (simp add: LeastConnection_vtable_def)
  with abs1 abs2 show ?thesis by (simp only: Let_def s1_def s2_def simp_thms)
qed

theorem LeastConnection_spec_example_witness:
  "placement_ok (place_front :: (server_id, size_t) placement)
   \<and> LeastConnection_new place_front [''A'', ''B'', ''C''] =
       Inr \<lparr>lc_connections = [(''C'', 0), (''B'', 0), (''A'', 0)]\<rparr>
   \<and> GetNextServer (LeastConnection_vtable place_front)
        (notify_all (LeastConnection_vtable place_front)
           [Started ''A'', Started ''B'', Started ''A'']
           \<lparr>lc_connections = [(''C'', 0), (''B'', 0), (''A'', 0)]\<rparr>) =
      Inr (''C'', \<lparr>lc_connections = [(''C'', 0), (''B'', 1), (''A'', 2)]\<rparr>)"
proof -
  have pl: "placement_ok (place_front :: (server_id, size_t) placement)" by simp
  have new: "LeastConnection_new place_front [''A'', ''B'', ''C''] =
      Inr \<lparr>lc_connections = [(''C'', 0), (''B'', 0), (''A'', 0)]\<rparr>"
    by (simp add: LeastConnection_new_Inr umap_eval)
  have run: "notify_all (LeastConnection_vtable place_front)
      [Started ''A'', Started ''B'', Started ''A'']
      \<lparr>lc_connections = [(''C'', 0), (''B'', 0), (''A'', 0)]\<rparr> =
    \<lparr>lc_connections = [(''C'', 0), (''B'', 1), (''A'', 2)]\<rparr>"
    by (simp add: LeastConnection_vtable_def LeastConnection_OnRequestStarted_def
        umap_eval)
  from LeastConnection_spec_example [OF pl new] pl new show ?thesis
    by (simp add: Let_def run del: notify_all_simps)
qed

end
