(* ===== verification/Simulation.thy ===== *)
theory Simulation
  imports LeastConnection
begin

text \<open>
  The program of \<open>leastconnecitonalgo.cpp\<close>: \<open>main\<close> selects a server sixteen times, starts
  a thread that runs \<open>simulate\<close> on it after each selection and prints the table; at the
  end it joins the threads one after the other. A state of the program holds the
  \<open>LeastConnection\<close> object, the owner of its mutex, the vector of threads (the server
  each was started with and its program point), the loop counter, the position of the
  join loop, the program point of \<open>main\<close>, and the tables printed so far. An execution is
  a sequence of scheduler choices: \<open>Main\<close>, or \<open>Worker j\<close> for the \<open>j\<close>-th thread;
  \<open>sim_exec\<close> performs the next step of the chosen thread, and is \<open>None\<close> when that thread
  cannot move (it waits for the mutex or for a thread it joins, or has ended).

  Every \<open>lock_guard\<close> of the program, the one of \<open>printConnections\<close> in \<open>main\<close> included,
  is an acquisition of the mutex as one step and the critical section with the release
  as the next. The sleeps and the durations drawn from \<open>std::rand\<close> only influence which
  schedule is taken, and all of them are covered. \<open>GetNextServer\<close> reads the table
  without the mutex; it is one step here, so what is proved of it holds for executions in
  which that read is not torn by a concurrent notification.
\<close>

section \<open>States\<close>

datatype thread_id = Main | Worker nat

datatype worker_pc = Spawned | Starting | Working | Finishing | Done

datatype main_pc = M_Select | M_Print | M_Printing | M_Join | M_Exit

record simulation =
  sim_lb :: LeastConnection
  sim_mtx :: "thread_id option"
  sim_threads :: "(server_id \<times> worker_pc) list"
  sim_i :: nat
  sim_joined :: nat
  sim_main :: main_pc
  sim_out :: "(server_id \<times> size_t) list list"

section \<open>The mutex\<close>

text \<open>The constructor of \<open>lock_guard\<close> in thread \<open>t\<close> and its destructor.\<close>

definition lock :: "thread_id \<Rightarrow> simulation \<Rightarrow> simulation option" where
  "lock t s = (case sim_mtx s of None \<Rightarrow> Some (s\<lparr>sim_mtx := Some t\<rparr>) | Some _ \<Rightarrow> None)"

definition unlock :: "simulation \<Rightarrow> simulation" where
  "unlock s = s\<lparr>sim_mtx := None\<rparr>"

section \<open>The worker\<close>

text \<open>
  \<open>simulate\<close> in thread \<open>j\<close>, one step at a time: \<open>OnRequestStarted\<close> (acquire, then count
  and release), the sleep, \<open>OnRequestFinished\<close> (acquire, then count and release).
\<close>

definition set_pc :: "nat \<Rightarrow> server_id \<Rightarrow> worker_pc \<Rightarrow> simulation \<Rightarrow> simulation" where
  "set_pc j server pc s = s\<lparr>sim_threads := (sim_threads s)[j := (server, pc)]\<rparr>"

definition simulate_step ::
  "(server_id, size_t) placement \<Rightarrow> nat \<Rightarrow> simulation \<Rightarrow> simulation option" where
  "simulate_step pl j s =
     (if j < length (sim_threads s) then
        (case sim_threads s ! j of
           (server, Spawned) \<Rightarrow> map_option (set_pc j server Starting) (lock (Worker j) s)
         | (server, Starting) \<Rightarrow>
             Some (unlock (set_pc j server Working
               (s\<lparr>sim_lb := LeastConnection_OnRequestStarted pl server (sim_lb s)\<rparr>)))
         | (server, Working) \<Rightarrow> map_option (set_pc j server Finishing) (lock (Worker j) s)
         | (server, Finishing) \<Rightarrow>
             Some (unlock (set_pc j server Done
               (s\<lparr>sim_lb := LeastConnection_OnRequestFinished pl server (sim_lb s)\<rparr>)))
         | (server, Done) \<Rightarrow> None)
      else None)"

section \<open>The main thread\<close>

text \<open>
  \<open>printConnections\<close> writes one line for each entry of the table in iteration order; the
  output is the list of the entries.
\<close>

definition printConnections :: "LeastConnection \<Rightarrow> (server_id \<times> size_t) list" where
  "printConnections lb = map (\<lambda>it. (fst it, snd it)) (lc_connections lb)"

definition main_servers :: "server_id list" where
  "main_servers = [''server1'', ''server2'', ''server3'']"

text \<open>
  One step of \<open>main\<close>. In the loop: the test with the selection and the start of the
  thread; the acquisition of the mutex by \<open>printConnections\<close>; the print with the release
  and the increment. After the loop: the join of the next thread of the vector, which
  waits until that thread has ended, and the return when all are joined.
  \<open>main_servers\<close> is the vector \<open>servers\<close> of \<open>main\<close>.
\<close>

definition main_step :: "simulation \<Rightarrow> simulation option" where
  "main_step s =
     (case sim_main s of
        M_Select \<Rightarrow>
          (if sim_i s \<le> 15 then
             (case LeastConnection_GetNextServer (sim_lb s) of
                Inl e \<Rightarrow> None
              | Inr (server, lb) \<Rightarrow>
                  Some (s\<lparr>sim_lb := lb, sim_threads := sim_threads s @ [(server, Spawned)],
                          sim_main := M_Print\<rparr>))
           else Some (s\<lparr>sim_joined := 0, sim_main := M_Join\<rparr>))
      | M_Print \<Rightarrow> map_option (\<lambda>s'. s'\<lparr>sim_main := M_Printing\<rparr>) (lock Main s)
      | M_Printing \<Rightarrow>
          Some (unlock (s\<lparr>sim_out := sim_out s @ [printConnections (sim_lb s)],
                          sim_i := sim_i s + 1, sim_main := M_Select\<rparr>))
      | M_Join \<Rightarrow>
          (if sim_joined s < length (sim_threads s) then
             (if snd (sim_threads s ! sim_joined s) = Done
              then Some (s\<lparr>sim_joined := sim_joined s + 1\<rparr>) else None)
           else Some (s\<lparr>sim_main := M_Exit\<rparr>))
      | M_Exit \<Rightarrow> None)"

definition leastconnecitonalgo_main :: "(server_id, size_t) placement \<Rightarrow> simulation result" where
  "leastconnecitonalgo_main pl =
     (case LeastConnection_new pl main_servers of
        Inl e \<Rightarrow> Inl e
      | Inr lb \<Rightarrow>
          Inr \<lparr>sim_lb = lb, sim_mtx = None, sim_threads = [], sim_i = 0, sim_joined = 0,
               sim_main = M_Select, sim_out = []\<rparr>)"

section \<open>Executions\<close>

definition sim_exec ::
  "(server_id, size_t) placement \<Rightarrow> thread_id \<Rightarrow> simulation \<Rightarrow> simulation option" where
  "sim_exec pl a s = (case a of Main \<Rightarrow> main_step s | Worker j \<Rightarrow> simulate_step pl j s)"

fun sim_run ::
  "(server_id, size_t) placement \<Rightarrow> thread_id list \<Rightarrow> simulation \<Rightarrow> simulation option" where
  "sim_run pl [] s = Some s"
| "sim_run pl (a # as) s =
     (case sim_exec pl a s of None \<Rightarrow> None | Some s' \<Rightarrow> sim_run pl as s')"

inductive sim_reachable :: "(server_id, size_t) placement \<Rightarrow> simulation \<Rightarrow> bool"
  for pl :: "(server_id, size_t) placement" where
  start: "leastconnecitonalgo_main pl = Inr s \<Longrightarrow> sim_reachable pl s"
| step: "sim_reachable pl s \<Longrightarrow> sim_exec pl a s = Some s' \<Longrightarrow> sim_reachable pl s'"

section \<open>Invariants and measure\<close>

definition in_critical :: "worker_pc \<Rightarrow> bool" where
  "in_critical pc \<longleftrightarrow> pc = Starting \<or> pc = Finishing"

definition in_flight :: "worker_pc \<Rightarrow> bool" where
  "in_flight pc \<longleftrightarrow> pc = Working \<or> pc = Finishing"

definition open_requests :: "server_id \<Rightarrow> (server_id \<times> worker_pc) list \<Rightarrow> nat" where
  "open_requests k ts = length (filter (\<lambda>t. fst t = k \<and> in_flight (snd t)) ts)"

definition inv_table :: "simulation \<Rightarrow> bool" where
  "inv_table s \<longleftrightarrow>
     LeastConnection_inv (sim_lb s) \<and> lc_pool (sim_lb s) = set main_servers
     \<and> fst ` set (sim_threads s) \<subseteq> set main_servers"

text \<open>
  A worker is inside a notification exactly when it owns the mutex, and \<open>main\<close> is inside
  \<open>printConnections\<close> exactly when it does.
\<close>

definition inv_mutex :: "simulation \<Rightarrow> bool" where
  "inv_mutex s \<longleftrightarrow>
     (\<forall>j < length (sim_threads s).
        in_critical (snd (sim_threads s ! j)) \<longleftrightarrow> sim_mtx s = Some (Worker j))
     \<and> (\<forall>j. sim_mtx s = Some (Worker j) \<longrightarrow> j < length (sim_threads s))
     \<and> (sim_main s = M_Printing \<longleftrightarrow> sim_mtx s = Some Main)"

definition inv_main :: "simulation \<Rightarrow> bool" where
  "inv_main s \<longleftrightarrow>
     length (sim_threads s) =
       sim_i s + (if sim_main s = M_Print \<or> sim_main s = M_Printing then 1 else 0)
     \<and> (case sim_main s of
          M_Select \<Rightarrow> sim_i s \<le> 16 \<and> sim_joined s = 0
        | M_Print \<Rightarrow> sim_i s \<le> 15 \<and> sim_joined s = 0
        | M_Printing \<Rightarrow> sim_i s \<le> 15 \<and> sim_joined s = 0
        | M_Join \<Rightarrow> sim_i s = 16 \<and> sim_joined s \<le> length (sim_threads s)
            \<and> list_all (\<lambda>t. snd t = Done) (take (sim_joined s) (sim_threads s))
        | M_Exit \<Rightarrow> sim_i s = 16 \<and> sim_joined s = length (sim_threads s)
            \<and> list_all (\<lambda>t. snd t = Done) (sim_threads s))
     \<and> length (sim_out s) = sim_i s"

definition inv_counts :: "simulation \<Rightarrow> bool" where
  "inv_counts s \<longleftrightarrow> (\<forall>k. lc_count (sim_lb s) k = open_requests k (sim_threads s))"

text \<open>What \<open>main\<close> has printed: tables with the configured servers and small counts.\<close>

definition inv_out :: "simulation \<Rightarrow> bool" where
  "inv_out s \<longleftrightarrow>
     (\<forall>t \<in> set (sim_out s).
        fst ` set t = set main_servers \<and> distinct (map fst t) \<and> (\<forall>e \<in> set t. unat (snd e) \<le> 16))"

definition sim_inv :: "simulation \<Rightarrow> bool" where
  "sim_inv s \<longleftrightarrow> inv_table s \<and> inv_mutex s \<and> inv_main s \<and> inv_counts s"

text \<open>
  The number of steps that a thread and the program have left: for each iteration of
  the loop three steps of \<open>main\<close>, four of the worker and its join, then the end of the
  loop and the return.
\<close>

primrec worker_steps :: "worker_pc \<Rightarrow> nat" where
  "worker_steps Spawned = 4"
| "worker_steps Starting = 3"
| "worker_steps Working = 2"
| "worker_steps Finishing = 1"
| "worker_steps Done = 0"

primrec main_steps :: "main_pc \<Rightarrow> nat \<Rightarrow> nat" where
  "main_steps M_Select i = (16 - i) * 8 + 2"
| "main_steps M_Print i = (15 - i) * 8 + 4"
| "main_steps M_Printing i = (15 - i) * 8 + 3"
| "main_steps M_Join i = 1"
| "main_steps M_Exit i = 0"

definition sim_measure :: "simulation \<Rightarrow> nat" where
  "sim_measure s =
     main_steps (sim_main s) (sim_i s) + (length (sim_threads s) - sim_joined s)
     + sum_list (map (\<lambda>t. worker_steps (snd t)) (sim_threads s))"

text \<open>
  The schedule in which every request is completed before the next selection: sixteen
  rounds of a selection, the four steps of the new thread and the two steps of the
  print, then the end of the loop, the sixteen joins and the return.
\<close>

definition round_schedule :: "nat \<Rightarrow> thread_id list" where
  "round_schedule j = [Main, Worker j, Worker j, Worker j, Worker j, Main, Main]"

definition sequential_schedule :: "thread_id list" where
  "sequential_schedule = concat (map round_schedule [0..<16]) @ replicate 18 Main"

text \<open>
  States of one execution with a table that places new keys in front, for closed
  instances: the start, the state in which the first worker holds the mutex, the state in
  which its request is counted, the state in which \<open>main\<close> holds the mutex, and the state
  after the first print.
\<close>

abbreviation example_table :: "size_t \<Rightarrow> LeastConnection" where
  "example_table n \<equiv> \<lparr>lc_connections = [(''server3'', n), (''server2'', 0), (''server1'', 0)]\<rparr>"

abbreviation example_start :: simulation where
  "example_start \<equiv>
     \<lparr>sim_lb = example_table 0, sim_mtx = None, sim_threads = [], sim_i = 0, sim_joined = 0,
      sim_main = M_Select, sim_out = []\<rparr>"

abbreviation example_locked :: simulation where
  "example_locked \<equiv>
     \<lparr>sim_lb = example_table 0, sim_mtx = Some (Worker 0), sim_threads = [(''server3'', Starting)],
      sim_i = 0, sim_joined = 0, sim_main = M_Print, sim_out = []\<rparr>"

abbreviation example_working :: simulation where
  "example_working \<equiv>
     \<lparr>sim_lb = example_table 1, sim_mtx = None, sim_threads = [(''server3'', Working)],
      sim_i = 0, sim_joined = 0, sim_main = M_Print, sim_out = []\<rparr>"

abbreviation example_printing :: simulation where
  "example_printing \<equiv>
     \<lparr>sim_lb = example_table 1, sim_mtx = Some Main, sim_threads = [(''server3'', Working)],
      sim_i = 0, sim_joined = 0, sim_main = M_Printing, sim_out = []\<rparr>"

abbreviation example_printed :: simulation where
  "example_printed \<equiv>
     \<lparr>sim_lb = example_table 1, sim_mtx = None, sim_threads = [(''server3'', Working)],
      sim_i = 1, sim_joined = 0, sim_main = M_Select,
      sim_out = [[(''server3'', 1), (''server2'', 0), (''server1'', 0)]]\<rparr>"

section \<open>The steps, case by case\<close>

text \<open>The defining equations of one step, for the evaluation of schedules.\<close>

lemmas sim_step_defs = sim_exec_def main_step_def simulate_step_def lock_def unlock_def set_pc_def

lemma lock_Some: "lock t s = Some s' \<longleftrightarrow> sim_mtx s = None \<and> s' = s\<lparr>sim_mtx := Some t\<rparr>"
  by (auto simp: lock_def split: option.splits)

lemma main_step_cases [consumes 1, case_names select leave acquire_print print join exit]:
  assumes "main_step s = Some s'"
  obtains
    (select) server where "sim_main s = M_Select" and "sim_i s \<le> 15"
      and "LeastConnection_GetNextServer (sim_lb s) = Inr (server, sim_lb s)"
      and "s' = s\<lparr>sim_threads := sim_threads s @ [(server, Spawned)], sim_main := M_Print\<rparr>"
  | (leave) "sim_main s = M_Select" and "15 < sim_i s"
      and "s' = s\<lparr>sim_joined := 0, sim_main := M_Join\<rparr>"
  | (acquire_print) "sim_main s = M_Print" and "sim_mtx s = None"
      and "s' = s\<lparr>sim_mtx := Some Main, sim_main := M_Printing\<rparr>"
  | (print) "sim_main s = M_Printing"
      and "s' = s\<lparr>sim_mtx := None, sim_out := sim_out s @ [printConnections (sim_lb s)],
             sim_i := sim_i s + 1, sim_main := M_Select\<rparr>"
  | (join) "sim_main s = M_Join" and "sim_joined s < length (sim_threads s)"
      and "snd (sim_threads s ! sim_joined s) = Done"
      and "s' = s\<lparr>sim_joined := sim_joined s + 1\<rparr>"
  | (exit) "sim_main s = M_Join" and "length (sim_threads s) \<le> sim_joined s"
      and "s' = s\<lparr>sim_main := M_Exit\<rparr>"
proof (cases "sim_main s")
  case M_Select
  show ?thesis
  proof (cases "sim_i s \<le> 15")
    case True
    with assms M_Select obtain server lb where
      sel: "LeastConnection_GetNextServer (sim_lb s) = Inr (server, lb)"
      and s': "s' = s\<lparr>sim_lb := lb, sim_threads := sim_threads s @ [(server, Spawned)],
                sim_main := M_Print\<rparr>"
      by (auto simp: main_step_def split: sum.splits)
    from sel have "lb = sim_lb s" by (rule LeastConnection_GetNextServer_state)
    with sel s' M_Select True show ?thesis by (intro select [of server]) simp_all
  next
    case False
    with assms M_Select show ?thesis by (intro leave) (simp_all add: main_step_def)
  qed
next
  case M_Print
  with assms show ?thesis
    by (intro acquire_print) (auto simp: main_step_def lock_Some)
next
  case M_Printing
  with assms show ?thesis
    by (intro print) (auto simp: main_step_def unlock_def)
next
  case M_Join
  with assms show ?thesis
    by (cases "sim_joined s < length (sim_threads s)")
      (auto simp: main_step_def intro: join exit split: if_splits)
next
  case M_Exit
  with assms show ?thesis by (simp add: main_step_def)
qed

lemma simulate_step_cases [consumes 1, case_names acquire_start started acquire_finish finished]:
  assumes "simulate_step pl j s = Some s'"
  obtains
    (acquire_start) server where "j < length (sim_threads s)"
      and "sim_threads s ! j = (server, Spawned)" and "sim_mtx s = None"
      and "s' = s\<lparr>sim_mtx := Some (Worker j),
             sim_threads := (sim_threads s)[j := (server, Starting)]\<rparr>"
  | (started) server where "j < length (sim_threads s)"
      and "sim_threads s ! j = (server, Starting)"
      and "s' = s\<lparr>sim_lb := LeastConnection_OnRequestStarted pl server (sim_lb s),
             sim_mtx := None, sim_threads := (sim_threads s)[j := (server, Working)]\<rparr>"
  | (acquire_finish) server where "j < length (sim_threads s)"
      and "sim_threads s ! j = (server, Working)" and "sim_mtx s = None"
      and "s' = s\<lparr>sim_mtx := Some (Worker j),
             sim_threads := (sim_threads s)[j := (server, Finishing)]\<rparr>"
  | (finished) server where "j < length (sim_threads s)"
      and "sim_threads s ! j = (server, Finishing)"
      and "s' = s\<lparr>sim_lb := LeastConnection_OnRequestFinished pl server (sim_lb s),
             sim_mtx := None, sim_threads := (sim_threads s)[j := (server, Done)]\<rparr>"
proof -
  from assms have j: "j < length (sim_threads s)"
    by (simp add: simulate_step_def split: if_splits)
  obtain server pc where t: "sim_threads s ! j = (server, pc)"
    by (cases "sim_threads s ! j")
  show ?thesis
  proof (cases pc)
    case Spawned
    with assms j t show ?thesis
      by (intro acquire_start [of server]) (auto simp: simulate_step_def lock_Some set_pc_def)
  next
    case Starting
    with assms j t show ?thesis
      by (intro started [of server]) (auto simp: simulate_step_def unlock_def set_pc_def)
  next
    case Working
    with assms j t show ?thesis
      by (intro acquire_finish [of server]) (auto simp: simulate_step_def lock_Some set_pc_def)
  next
    case Finishing
    with assms j t show ?thesis
      by (intro finished [of server]) (auto simp: simulate_step_def unlock_def set_pc_def)
  next
    case Done
    with assms j t show ?thesis by (simp add: simulate_step_def)
  qed
qed

lemma sim_exec_cases [consumes 1, case_names select leave acquire_print print join exit
    acquire_start started acquire_finish finished]:
  assumes "sim_exec pl a s = Some s'"
  obtains
    (select) server where "a = Main" and "sim_main s = M_Select" and "sim_i s \<le> 15"
      and "LeastConnection_GetNextServer (sim_lb s) = Inr (server, sim_lb s)"
      and "s' = s\<lparr>sim_threads := sim_threads s @ [(server, Spawned)], sim_main := M_Print\<rparr>"
  | (leave) "a = Main" and "sim_main s = M_Select" and "15 < sim_i s"
      and "s' = s\<lparr>sim_joined := 0, sim_main := M_Join\<rparr>"
  | (acquire_print) "a = Main" and "sim_main s = M_Print" and "sim_mtx s = None"
      and "s' = s\<lparr>sim_mtx := Some Main, sim_main := M_Printing\<rparr>"
  | (print) "a = Main" and "sim_main s = M_Printing"
      and "s' = s\<lparr>sim_mtx := None, sim_out := sim_out s @ [printConnections (sim_lb s)],
             sim_i := sim_i s + 1, sim_main := M_Select\<rparr>"
  | (join) "a = Main" and "sim_main s = M_Join" and "sim_joined s < length (sim_threads s)"
      and "snd (sim_threads s ! sim_joined s) = Done"
      and "s' = s\<lparr>sim_joined := sim_joined s + 1\<rparr>"
  | (exit) "a = Main" and "sim_main s = M_Join" and "length (sim_threads s) \<le> sim_joined s"
      and "s' = s\<lparr>sim_main := M_Exit\<rparr>"
  | (acquire_start) j server where "a = Worker j" and "j < length (sim_threads s)"
      and "sim_threads s ! j = (server, Spawned)" and "sim_mtx s = None"
      and "s' = s\<lparr>sim_mtx := Some (Worker j),
             sim_threads := (sim_threads s)[j := (server, Starting)]\<rparr>"
  | (started) j server where "a = Worker j" and "j < length (sim_threads s)"
      and "sim_threads s ! j = (server, Starting)"
      and "s' = s\<lparr>sim_lb := LeastConnection_OnRequestStarted pl server (sim_lb s),
             sim_mtx := None, sim_threads := (sim_threads s)[j := (server, Working)]\<rparr>"
  | (acquire_finish) j server where "a = Worker j" and "j < length (sim_threads s)"
      and "sim_threads s ! j = (server, Working)" and "sim_mtx s = None"
      and "s' = s\<lparr>sim_mtx := Some (Worker j),
             sim_threads := (sim_threads s)[j := (server, Finishing)]\<rparr>"
  | (finished) j server where "a = Worker j" and "j < length (sim_threads s)"
      and "sim_threads s ! j = (server, Finishing)"
      and "s' = s\<lparr>sim_lb := LeastConnection_OnRequestFinished pl server (sim_lb s),
             sim_mtx := None, sim_threads := (sim_threads s)[j := (server, Done)]\<rparr>"
proof (cases a)
  case Main
  with assms have "main_step s = Some s'" by (simp add: sim_exec_def)
  then show ?thesis
  proof (cases rule: main_step_cases)
    case (select server)
    from Main this show ?thesis by (rule that(1))
  next
    case leave
    from Main this show ?thesis by (rule that(2))
  next
    case acquire_print
    from Main this show ?thesis by (rule that(3))
  next
    case print
    from Main this show ?thesis by (rule that(4))
  next
    case join
    from Main this show ?thesis by (rule that(5))
  next
    case exit
    from Main this show ?thesis by (rule that(6))
  qed
next
  case (Worker j)
  with assms have "simulate_step pl j s = Some s'" by (simp add: sim_exec_def)
  then show ?thesis
  proof (cases rule: simulate_step_cases)
    case (acquire_start server)
    from Worker this show ?thesis by (rule that(7))
  next
    case (started server)
    from Worker this show ?thesis by (rule that(8))
  next
    case (acquire_finish server)
    from Worker this show ?thesis by (rule that(9))
  next
    case (finished server)
    from Worker this show ?thesis by (rule that(10))
  qed
qed

section \<open>Preservation of the invariants\<close>

lemma leastconnecitonalgo_main_Inr:
  "leastconnecitonalgo_main pl = Inr s \<longleftrightarrow>
   (\<exists>lb. LeastConnection_new pl main_servers = Inr lb \<and>
      s = \<lparr>sim_lb = lb, sim_mtx = None, sim_threads = [], sim_i = 0, sim_joined = 0,
            sim_main = M_Select, sim_out = []\<rparr>)"
  by (auto simp: leastconnecitonalgo_main_def split: sum.splits)

lemma open_requests_simps [simp]:
  "open_requests k [] = 0"
  "open_requests k (ts @ [(server, Spawned)]) = open_requests k ts"
  by (simp_all add: open_requests_def in_flight_def)

lemma open_requests_le: "open_requests k ts \<le> length ts"
  by (simp add: open_requests_def)

lemma open_requests_update:
  assumes "j < length ts" and "ts ! j = (server, pc)"
  shows "open_requests k (ts[j := (server, pc')]) + (if k = server \<and> in_flight pc then 1 else 0) =
    open_requests k ts + (if k = server \<and> in_flight pc' then 1 else 0)"
  using length_filter_update [OF assms(1), of "\<lambda>t. fst t = k \<and> in_flight (snd t)" "(server, pc')"]
    assms(2)
  by (simp add: open_requests_def eq_commute [of k])

lemma open_requests_Done:
  "list_all (\<lambda>t. snd t = Done) ts \<Longrightarrow> open_requests k ts = 0"
  by (induction ts) (auto simp: open_requests_def in_flight_def)

lemma sim_inv_start:
  assumes "placement_ok pl" and "leastconnecitonalgo_main pl = Inr s"
  shows "sim_inv s"
proof -
  from assms(2) obtain lb where new: "LeastConnection_new pl main_servers = Inr lb"
    and s: "s = \<lparr>sim_lb = lb, sim_mtx = None, sim_threads = [], sim_i = 0, sim_joined = 0,
      sim_main = M_Select, sim_out = []\<rparr>"
    by (auto simp: leastconnecitonalgo_main_Inr)
  note props = LeastConnection_new_props [OF assms(1) new]
  from props(3) have "lc_count lb k = 0" for k by (simp add: lc_count_def)
  with props(1,2) show ?thesis
    by (simp add: sim_inv_def inv_table_def inv_mutex_def inv_main_def inv_counts_def s)
qed

lemma thread_server:
  assumes "inv_table s" and "j < length (sim_threads s)" and "sim_threads s ! j = (server, pc)"
  shows "server \<in> set main_servers" and "server \<in> lc_pool (sim_lb s)"
proof -
  from assms(2,3) have "(server, pc) \<in> set (sim_threads s)" by (metis nth_mem)
  with assms(1) show "server \<in> set main_servers" by (force simp: inv_table_def)
  with assms(1) show "server \<in> lc_pool (sim_lb s)" by (simp add: inv_table_def)
qed

lemma thread_update:
  assumes "inv_table s" and "j < length (sim_threads s)" and "sim_threads s ! j = (server, pc)"
  shows "fst ` set ((sim_threads s)[j := (server, pc')]) \<subseteq> set main_servers"
proof -
  have "fst ` set ((sim_threads s)[j := (server, pc')]) \<subseteq>
      fst ` insert (server, pc') (set (sim_threads s))"
    by (intro image_mono set_update_subset_insert)
  with thread_server(1) [OF assms] assms(1) show ?thesis by (auto simp: inv_table_def)
qed

lemma inv_table_step:
  assumes pl: "placement_ok pl" and inv: "inv_table s" and step: "sim_exec pl a s = Some s'"
  shows "inv_table s'"
proof -
  from inv have lb: "LeastConnection_inv (sim_lb s)" and pool: "lc_pool (sim_lb s) = set main_servers"
    by (simp_all add: inv_table_def)
  note upd = thread_update [OF inv] and known = thread_server(2) [OF inv]
  from step show ?thesis
  proof (cases rule: sim_exec_cases)
    case (select server)
    from lb select(4) have "server \<in> lc_pool (sim_lb s)"
      by (rule LeastConnection_GetNextServer_pool)
    with inv pool select(5) show ?thesis by (simp add: inv_table_def)
  next
    case (started j server)
    from known [OF started(2,3)] pl lb pool upd [OF started(2,3)] show ?thesis
      by (simp add: inv_table_def started(4) LeastConnection_notify_inv lc_pool_notify
          insert_absorb)
  next
    case (finished j server)
    from known [OF finished(2,3)] pl lb pool upd [OF finished(2,3)] show ?thesis
      by (simp add: inv_table_def finished(4) LeastConnection_notify_inv lc_pool_notify
          insert_absorb)
  next
    case (acquire_start j server)
    with inv upd [OF acquire_start(2,3)] show ?thesis by (simp add: inv_table_def)
  next
    case (acquire_finish j server)
    with inv upd [OF acquire_finish(2,3)] show ?thesis by (simp add: inv_table_def)
  qed (use inv in \<open>simp_all add: inv_table_def\<close>)
qed

lemma inv_mutex_step:
  assumes inv: "inv_mutex s" and step: "sim_exec pl a s = Some s'"
  shows "inv_mutex s'"
proof -
  from inv have crit: "in_critical (snd (sim_threads s ! j)) \<longleftrightarrow> sim_mtx s = Some (Worker j)"
    if "j < length (sim_threads s)" for j
    using that by (simp add: inv_mutex_def)
  from inv have held: "j < length (sim_threads s)" if "sim_mtx s = Some (Worker j)" for j
    using that by (simp add: inv_mutex_def)
  from inv have main: "sim_main s = M_Printing \<longleftrightarrow> sim_mtx s = Some Main"
    by (simp add: inv_mutex_def)
  from step show ?thesis
  proof (cases rule: sim_exec_cases)
    case (select server)
    with crit held main show ?thesis
      by (auto simp: inv_mutex_def nth_append in_critical_def less_Suc_eq)
  next
    case acquire_print
    with crit show ?thesis by (simp add: inv_mutex_def)
  next
    case print
    with crit main show ?thesis by (simp add: inv_mutex_def)
  next
    case (acquire_start j server)
    with crit main show ?thesis
      by (auto simp: inv_mutex_def nth_list_update in_critical_def)
  next
    case (started j server)
    with crit [of j] crit main show ?thesis
      by (auto simp: inv_mutex_def nth_list_update in_critical_def)
  next
    case (acquire_finish j server)
    with crit main show ?thesis
      by (auto simp: inv_mutex_def nth_list_update in_critical_def)
  next
    case (finished j server)
    with crit [of j] crit main show ?thesis
      by (auto simp: inv_mutex_def nth_list_update in_critical_def)
  qed (use inv in \<open>simp_all add: inv_mutex_def\<close>)
qed

text \<open>A thread that has ended stays as it is when another thread moves.\<close>

lemma joined_update:
  assumes "list_all (\<lambda>t. snd t = Done) (take n ts)" and "j < length ts" and "snd (ts ! j) \<noteq> Done"
  shows "list_all (\<lambda>t. snd t = Done) (take n (ts[j := y]))"
proof -
  have "n \<le> j"
  proof (rule ccontr)
    assume less: "\<not> n \<le> j"
    with assms(2) have "j < length (take n ts)" by simp
    with assms(1) have "snd (take n ts ! j) = Done" by (simp add: list_all_length)
    with less assms(3) show False by simp
  qed
  then have "take n (ts[j := y]) = take n ts" by simp
  with assms(1) show ?thesis by simp
qed

lemma inv_main_worker:
  assumes inv: "inv_main s" and j: "j < length (sim_threads s)"
    and pc: "snd (sim_threads s ! j) \<noteq> Done"
  shows "inv_main (s\<lparr>sim_lb := lb, sim_mtx := m, sim_threads := (sim_threads s)[j := y]\<rparr>)"
    and "inv_main (s\<lparr>sim_mtx := m, sim_threads := (sim_threads s)[j := y]\<rparr>)"
  using inv j pc joined_update [of "sim_joined s" "sim_threads s" j y]
  by (auto simp: inv_main_def list_all_length split: main_pc.splits)

lemma inv_main_step:
  assumes inv: "inv_main s" and step: "sim_exec pl a s = Some s'"
  shows "inv_main s'"
  using step
proof (cases rule: sim_exec_cases)
  case (acquire_start j server)
  with inv_main_worker(2) [OF inv, of j] show ?thesis by simp
next
  case (started j server)
  with inv_main_worker(1) [OF inv, of j] show ?thesis by simp
next
  case (acquire_finish j server)
  with inv_main_worker(2) [OF inv, of j] show ?thesis by simp
next
  case (finished j server)
  with inv_main_worker(1) [OF inv, of j] show ?thesis by simp
next
  case join
  with inv show ?thesis by (auto simp: inv_main_def take_Suc_conv_app_nth)
next
  case exit
  with inv show ?thesis by (auto simp: inv_main_def)
qed (use inv in \<open>auto simp: inv_main_def\<close>)

lemma inv_main_length: "inv_main s \<Longrightarrow> length (sim_threads s) \<le> 16"
  by (auto simp: inv_main_def split: main_pc.splits if_splits)

lemma inv_counts_step:
  assumes pl: "placement_ok pl" and tab: "inv_table s" and main: "inv_main s"
    and inv: "inv_counts s" and step: "sim_exec pl a s = Some s'"
  shows "inv_counts s'"
proof -
  from tab have ok: "umap_ok (lc_connections (sim_lb s))"
    by (simp add: inv_table_def LeastConnection_inv_def)
  from inv have cnt: "lc_count (sim_lb s) k = open_requests k (sim_threads s)" for k
    by (simp add: inv_counts_def)
  from main have small: "open_requests k (sim_threads s) < 2 ^ 64 - 1" for k
    using open_requests_le [of k "sim_threads s"] inv_main_length [OF main] by simp
  note upd = open_requests_update [where ts = "sim_threads s"]
  from step show ?thesis
  proof (cases rule: sim_exec_cases)
    case (acquire_start j server)
    have "lc_count (sim_lb s') k = open_requests k (sim_threads s')" for k
      using upd [OF acquire_start(2,3), of k Starting] cnt [of k]
      by (simp add: acquire_start(5) in_flight_def)
    then show ?thesis by (simp add: inv_counts_def)
  next
    case (started j server)
    have "lc_count (sim_lb s') k = open_requests k (sim_threads s')" for k
      using upd [OF started(2,3), of k Working] cnt [of k] cnt [of server] small [of server]
      by (auto simp: started(4) in_flight_def lc_count_started [OF pl ok])
    then show ?thesis by (simp add: inv_counts_def)
  next
    case (acquire_finish j server)
    have "lc_count (sim_lb s') k = open_requests k (sim_threads s')" for k
      using upd [OF acquire_finish(2,3), of k Finishing] cnt [of k]
      by (simp add: acquire_finish(5) in_flight_def)
    then show ?thesis by (simp add: inv_counts_def)
  next
    case (finished j server)
    have "lc_count (sim_lb s') k = open_requests k (sim_threads s')" for k
      using upd [OF finished(2,3), of k Done] cnt [of k] cnt [of server]
      by (auto simp: finished(4) in_flight_def lc_count_finished [OF pl ok])
    then show ?thesis by (simp add: inv_counts_def)
  qed (use cnt in \<open>simp_all add: inv_counts_def\<close>)
qed

lemma sim_inv_step:
  assumes "placement_ok pl" and "sim_inv s" and "sim_exec pl a s = Some s'"
  shows "sim_inv s'"
  using assms
  by (simp add: sim_inv_def inv_table_step [of pl s a] inv_mutex_step [of s pl a]
      inv_main_step [of s pl a] inv_counts_step [of pl s a])

lemma sim_reachable_inv:
  assumes "placement_ok pl" and "sim_reachable pl s"
  shows "sim_inv s"
  using assms(2)
proof (induction rule: sim_reachable.induct)
  case (start s)
  with assms(1) show ?case by (rule sim_inv_start)
next
  case (step s a s')
  from assms(1) step(3,2) show ?case by (rule sim_inv_step)
qed

section \<open>Termination\<close>

lemma sim_measure_step:
  assumes inv: "inv_main s" and step: "sim_exec pl a s = Some s'"
  shows "Suc (sim_measure s') = sim_measure s"
  using step
proof (cases rule: sim_exec_cases)
  case (select server)
  then have "(16 - sim_i s) * 8 = (15 - sim_i s) * 8 + 8" by simp
  with select inv show ?thesis by (simp add: sim_measure_def inv_main_def)
next
  case leave
  with inv show ?thesis by (simp add: sim_measure_def inv_main_def)
next
  case acquire_print
  then show ?thesis by (simp add: sim_measure_def)
next
  case print
  then show ?thesis by (simp add: sim_measure_def)
next
  case join
  then show ?thesis by (simp add: sim_measure_def Suc_diff_Suc)
next
  case exit
  then show ?thesis by (simp add: sim_measure_def)
next
  case (acquire_start j server)
  with sum_list_map_update [of j "sim_threads s" "\<lambda>t. worker_steps (snd t)" "(server, Starting)"]
  show ?thesis by (simp add: sim_measure_def)
next
  case (started j server)
  with sum_list_map_update [of j "sim_threads s" "\<lambda>t. worker_steps (snd t)" "(server, Working)"]
  show ?thesis by (simp add: sim_measure_def)
next
  case (acquire_finish j server)
  with sum_list_map_update [of j "sim_threads s" "\<lambda>t. worker_steps (snd t)" "(server, Finishing)"]
  show ?thesis by (simp add: sim_measure_def)
next
  case (finished j server)
  with sum_list_map_update [of j "sim_threads s" "\<lambda>t. worker_steps (snd t)" "(server, Done)"]
  show ?thesis by (simp add: sim_measure_def)
qed

lemma sim_run_measure:
  assumes pl: "placement_ok pl"
  shows "sim_inv s \<Longrightarrow> sim_run pl as s = Some s' \<Longrightarrow> length as + sim_measure s' = sim_measure s"
proof (induction as arbitrary: s)
  case Nil
  then show ?case by simp
next
  case (Cons a as)
  from Cons.prems(2) obtain t where a: "sim_exec pl a s = Some t"
    and run: "sim_run pl as t = Some s'"
    by (auto split: option.splits)
  from pl Cons.prems(1) a have "sim_inv t" by (rule sim_inv_step)
  from Cons.IH [OF this run] sim_measure_step [OF _ a] Cons.prems(1) show ?case
    by (simp add: sim_inv_def)
qed

section \<open>Runs\<close>

lemma sim_run_append:
  "sim_run pl (as @ bs) s = (case sim_run pl as s of None \<Rightarrow> None | Some t \<Rightarrow> sim_run pl bs t)"
  by (induction as arbitrary: s) (simp_all split: option.splits)

lemma sim_run_reachable:
  assumes "sim_reachable pl s" and "sim_run pl as s = Some s'"
  shows "sim_reachable pl s'"
  using assms
proof (induction as arbitrary: s)
  case Nil
  then show ?case by simp
next
  case (Cons a as)
  from Cons.prems(2) obtain t where a: "sim_exec pl a s = Some t" and run: "sim_run pl as t = Some s'"
    by (auto split: option.splits)
  from Cons.prems(1) a have "sim_reachable pl t" by (rule sim_reachable.step)
  then show ?case using run by (rule Cons.IH)
qed

lemma sim_reachable_run:
  assumes "sim_reachable pl s"
  shows "\<exists>s0 as. leastconnecitonalgo_main pl = Inr s0 \<and> sim_run pl as s0 = Some s"
  using assms
proof (induction rule: sim_reachable.induct)
  case (start s)
  then have "leastconnecitonalgo_main pl = Inr s \<and> sim_run pl [] s = Some s" by simp
  then show ?case by blast
next
  case (step s a s')
  then obtain s0 as where "leastconnecitonalgo_main pl = Inr s0" and "sim_run pl as s0 = Some s"
    by blast
  with step(2) have "leastconnecitonalgo_main pl = Inr s0 \<and> sim_run pl (as @ [a]) s0 = Some s'"
    by (simp add: sim_run_append)
  then show ?case by blast
qed

lemma sim_measure_start: "leastconnecitonalgo_main pl = Inr s \<Longrightarrow> sim_measure s = 130"
  by (auto simp: leastconnecitonalgo_main_Inr sim_measure_def)

lemma sim_measure_0:
  assumes "inv_main s"
  shows "sim_measure s = 0 \<longleftrightarrow> sim_main s = M_Exit"
proof
  assume "sim_measure s = 0"
  then show "sim_main s = M_Exit" by (cases "sim_main s") (simp_all add: sim_measure_def)
next
  assume exit: "sim_main s = M_Exit"
  with assms have fin: "list_all (\<lambda>t. snd t = Done) (sim_threads s)"
    and joined: "sim_joined s = length (sim_threads s)"
    by (simp_all add: inv_main_def)
  from fin have "sum_list (map (\<lambda>t. worker_steps (snd t)) (sim_threads s)) = 0"
    by (induction "sim_threads s") (auto simp: list_all_iff)
  with exit joined show "sim_measure s = 0" by (simp add: sim_measure_def)
qed

lemma sim_enabled:
  assumes pl: "placement_ok pl" and inv: "sim_inv s" and run: "sim_main s \<noteq> M_Exit"
  shows "\<exists>a s'. sim_exec pl a s = Some s'"
proof (cases "sim_mtx s")
  case (Some t)
  show ?thesis
  proof (cases t)
    case Main
    with Some inv have "sim_main s = M_Printing" by (simp add: sim_inv_def inv_mutex_def)
    then have "\<exists>s'. sim_exec pl Main s = Some s'" by (simp add: sim_exec_def main_step_def)
    then show ?thesis by blast
  next
    case (Worker j)
    with Some inv have j: "j < length (sim_threads s)"
      and "in_critical (snd (sim_threads s ! j))"
      by (simp_all add: sim_inv_def inv_mutex_def)
    then have "\<exists>s'. sim_exec pl (Worker j) s = Some s'"
      by (cases "sim_threads s ! j")
        (auto simp: sim_exec_def simulate_step_def in_critical_def)
    then show ?thesis by blast
  qed
next
  case None
  from inv have lb: "LeastConnection_inv (sim_lb s)" by (simp add: sim_inv_def inv_table_def)
  from LeastConnection_GetNextServer_first [OF this] obtain x where
    sel: "LeastConnection_GetNextServer (sim_lb s) = Inr (x, sim_lb s)"
    by blast
  show ?thesis
  proof (cases "\<exists>s'. sim_exec pl Main s = Some s'")
    case True
    then show ?thesis by blast
  next
    case False
    then have "main_step s = None" by (simp add: sim_exec_def)
    with None sel run have j: "sim_joined s < length (sim_threads s)"
      and nd: "snd (sim_threads s ! sim_joined s) \<noteq> Done"
      by (cases "sim_main s"; simp add: main_step_def lock_def split: if_splits)+
    from inv None j have "\<not> in_critical (snd (sim_threads s ! sim_joined s))"
      by (simp add: sim_inv_def inv_mutex_def)
    with nd j None have "\<exists>s'. sim_exec pl (Worker (sim_joined s)) s = Some s'"
      by (cases "sim_threads s ! sim_joined s")
        (simp add: sim_exec_def simulate_step_def in_critical_def lock_def
          split: worker_pc.splits)
    then show ?thesis by blast
  qed
qed

section \<open>The sequential schedule\<close>

lemma sim_round:
  assumes pl: "placement_ok pl" and inv: "LeastConnection_inv lb"
    and sel: "LeastConnection_GetNextServer lb = Inr (x, lb)"
    and idle: "lc_count lb x = 0" and i: "i \<le> 15"
  shows "sim_run pl (round_schedule (length ts))
      \<lparr>sim_lb = lb, sim_mtx = None, sim_threads = ts, sim_i = i, sim_joined = 0,
       sim_main = M_Select, sim_out = out\<rparr> =
    Some \<lparr>sim_lb = lb, sim_mtx = None, sim_threads = ts @ [(x, Done)], sim_i = Suc i,
          sim_joined = 0, sim_main = M_Select, sim_out = out @ [printConnections lb]\<rparr>"
proof -
  from inv sel have "x \<in> lc_pool lb" by (rule LeastConnection_GetNextServer_pool)
  then have "LeastConnection_OnRequestFinished pl x (LeastConnection_OnRequestStarted pl x lb) = lb"
    by (rule lc_start_finish_pool) (simp add: idle)
  with sel i show ?thesis
    by (simp add: round_schedule_def sim_step_defs)
qed

lemma sim_rounds:
  assumes pl: "placement_ok pl" and inv: "LeastConnection_inv lb"
    and sel: "LeastConnection_GetNextServer lb = Inr (x, lb)" and idle: "lc_count lb x = 0"
  shows "n \<le> 16 \<Longrightarrow>
    sim_run pl (concat (map round_schedule [0..<n]))
      \<lparr>sim_lb = lb, sim_mtx = None, sim_threads = [], sim_i = 0, sim_joined = 0,
       sim_main = M_Select, sim_out = []\<rparr> =
    Some \<lparr>sim_lb = lb, sim_mtx = None, sim_threads = replicate n (x, Done), sim_i = n,
          sim_joined = 0, sim_main = M_Select, sim_out = replicate n (printConnections lb)\<rparr>"
proof (induction n)
  case 0
  then show ?case by simp
next
  case (Suc n)
  from Suc.prems have "n \<le> 15" by simp
  from sim_round [OF pl inv sel idle this, of "replicate n (x, Done)"] Suc show ?case
    by (simp add: sim_run_append replicate_append_same)
qed

text \<open>The joins of threads that have all ended.\<close>

lemma sim_joins:
  "k \<le> n \<Longrightarrow>
   sim_run pl (replicate k Main)
     \<lparr>sim_lb = lb, sim_mtx = None, sim_threads = replicate n (x, Done), sim_i = i,
      sim_joined = n - k, sim_main = M_Join, sim_out = out\<rparr> =
   Some \<lparr>sim_lb = lb, sim_mtx = None, sim_threads = replicate n (x, Done), sim_i = i,
         sim_joined = n, sim_main = M_Join, sim_out = out\<rparr>"
proof (induction k)
  case 0
  then show ?case by simp
next
  case (Suc k)
  then have "Suc (n - Suc k) = n - k" by simp
  with Suc show ?case by (simp add: sim_exec_def main_step_def)
qed

lemma sim_sequential:
  assumes pl: "placement_ok pl" and start: "leastconnecitonalgo_main pl = Inr s0"
  shows "\<exists>x. sim_run pl sequential_schedule s0 =
    Some \<lparr>sim_lb = sim_lb s0, sim_mtx = None, sim_threads = replicate 16 (x, Done), sim_i = 16,
          sim_joined = 16, sim_main = M_Exit,
          sim_out = replicate 16 (printConnections (sim_lb s0))\<rparr>"
proof -
  from start obtain lb where new: "LeastConnection_new pl main_servers = Inr lb"
    and s0: "s0 = \<lparr>sim_lb = lb, sim_mtx = None, sim_threads = [], sim_i = 0, sim_joined = 0,
      sim_main = M_Select, sim_out = []\<rparr>"
    by (auto simp: leastconnecitonalgo_main_Inr)
  note props = LeastConnection_new_props [OF pl new]
  from props(3) have idle: "lc_count lb x = 0" for x by (simp add: lc_count_def)
  from LeastConnection_GetNextServer_first [OF props(1)] obtain x where
    sel: "LeastConnection_GetNextServer lb = Inr (x, lb)"
    by blast
  have split: "replicate 18 Main = [Main] @ replicate 16 Main @ [Main]"
    by (simp add: replicate_numeral)
  from sim_rounds [OF pl props(1) sel idle, of 16] sim_joins [of 16 16 pl lb x]
  have "sim_run pl sequential_schedule s0 =
    Some \<lparr>sim_lb = sim_lb s0, sim_mtx = None, sim_threads = replicate 16 (x, Done), sim_i = 16,
          sim_joined = 16, sim_main = M_Exit,
          sim_out = replicate 16 (printConnections (sim_lb s0))\<rparr>"
    unfolding sequential_schedule_def split
    by (simp add: sim_run_append s0 sim_exec_def main_step_def)
  then show ?thesis ..
qed

section \<open>The printed tables\<close>

lemma printConnections_eq: "printConnections lb = lc_connections lb"
  by (simp add: printConnections_def)

lemma inv_out_print:
  assumes "sim_inv s"
  shows "fst ` set (lc_connections (sim_lb s)) = set main_servers"
    and "distinct (map fst (lc_connections (sim_lb s)))"
    and "\<forall>e \<in> set (lc_connections (sim_lb s)). unat (snd e) \<le> 16"
proof -
  from assms have ok: "umap_ok (lc_connections (sim_lb s))"
    and pool: "lc_pool (sim_lb s) = set main_servers"
    and cnt: "\<And>k. lc_count (sim_lb s) k = open_requests k (sim_threads s)"
    and len: "length (sim_threads s) \<le> 16"
    by (simp_all add: sim_inv_def inv_table_def LeastConnection_inv_def inv_counts_def
        inv_main_length)
  from pool show "fst ` set (lc_connections (sim_lb s)) = set main_servers"
    by (simp add: lc_pool_def)
  from ok show "distinct (map fst (lc_connections (sim_lb s)))" by (simp add: umap_ok_def)
  show "\<forall>e \<in> set (lc_connections (sim_lb s)). unat (snd e) \<le> 16"
  proof
    fix e
    assume "e \<in> set (lc_connections (sim_lb s))"
    with ok have "unat (snd e) = lc_count (sim_lb s) (fst e)" by (simp add: lc_count_member)
    with cnt [of "fst e"] open_requests_le [of "fst e" "sim_threads s"] len
    show "unat (snd e) \<le> 16" by simp
  qed
qed

lemma inv_out_step:
  assumes "sim_inv s" and "inv_out s" and "sim_exec pl a s = Some s'"
  shows "inv_out s'"
  using assms(3)
proof (cases rule: sim_exec_cases)
  case print
  with assms(2) inv_out_print [OF assms(1)] show ?thesis
    by (simp add: inv_out_def printConnections_eq)
qed (use assms(2) in \<open>simp_all add: inv_out_def\<close>)

lemma sim_reachable_out:
  assumes "placement_ok pl" and "sim_reachable pl s"
  shows "inv_out s"
  using assms(2)
proof (induction rule: sim_reachable.induct)
  case (start s)
  then show ?case by (auto simp: leastconnecitonalgo_main_Inr inv_out_def)
next
  case (step s a s')
  from assms(1) step(1) have "sim_inv s" by (rule sim_reachable_inv)
  then show ?case using step(3,2) by (rule inv_out_step)
qed

section \<open>An execution, evaluated\<close>

lemma example_run:
  "leastconnecitonalgo_main place_front = Inr example_start"
  "sim_run place_front [Main, Worker 0] example_start = Some example_locked"
  "sim_run place_front [Main, Worker 0, Worker 0] example_start = Some example_working"
  "sim_run place_front [Main] example_working = Some example_printing"
  "sim_run place_front [Main] example_printing = Some example_printed"
  by (simp_all add: leastconnecitonalgo_main_def main_servers_def LeastConnection_new_def
      vector_empty_def umap_eval sim_step_defs LeastConnection_GetNextServer_def min_element_def
      LeastConnection_OnRequestStarted_def printConnections_def)

lemma example_reachable:
  "sim_reachable place_front example_locked" "sim_reachable place_front example_working"
  "sim_reachable place_front example_printing" "sim_reachable place_front example_printed"
proof -
  from sim_reachable.start [OF example_run(1)] example_run(2,3)
  show "sim_reachable place_front example_locked"
    and working: "sim_reachable place_front example_working"
    by (blast intro: sim_run_reachable)+
  from working example_run(4) show printing: "sim_reachable place_front example_printing"
    by (rule sim_run_reachable)
  from printing example_run(5) show "sim_reachable place_front example_printed"
    by (rule sim_run_reachable)
qed

section \<open>Properties\<close>

text \<open>
  C5 (concurrent correctness). In every execution of the program, under every schedule of
  \<open>main\<close> and the sixteen workers, when \<open>main\<close> has joined the threads every connection
  count is 0 and the mutex is free.
\<close>

theorem simulation_counts_zero_at_exit:
  assumes "placement_ok pl" and "sim_reachable pl s" and "sim_main s = M_Exit"
  shows "lc_count (sim_lb s) k = 0 \<and> sim_mtx s = None"
proof -
  from assms(1,2) have inv: "sim_inv s" by (rule sim_reachable_inv)
  with assms(3) have fin: "list_all (\<lambda>t. snd t = Done) (sim_threads s)"
    by (simp add: sim_inv_def inv_main_def)
  with inv have "lc_count (sim_lb s) k = 0"
    by (simp add: sim_inv_def inv_counts_def open_requests_Done)
  moreover have "sim_mtx s = None"
  proof (rule ccontr)
    assume "sim_mtx s \<noteq> None"
    then obtain t where t: "sim_mtx s = Some t" by auto
    show False
    proof (cases t)
      case Main
      with t inv assms(3) show False by (auto simp: sim_inv_def inv_mutex_def)
    next
      case (Worker j)
      with t inv have "j < length (sim_threads s)"
        and "in_critical (snd (sim_threads s ! j))"
        by (simp_all add: sim_inv_def inv_mutex_def)
      with fin show False by (simp add: list_all_length in_critical_def)
    qed
  qed
  ultimately show ?thesis by simp
qed

theorem simulation_counts_zero_at_exit_witness:
  "\<exists>s. sim_reachable place_front s \<and> sim_main s = M_Exit
     \<and> lc_count (sim_lb s) ''server3'' = 0 \<and> sim_mtx s = None"
proof -
  have pl: "placement_ok (place_front :: (server_id, size_t) placement)" by simp
  from sim_sequential [OF pl example_run(1)] obtain s where
    run: "sim_run place_front sequential_schedule example_start = Some s"
    and exit: "sim_main s = M_Exit"
    by auto
  from sim_reachable.start [OF example_run(1)] run have "sim_reachable place_front s"
    by (rule sim_run_reachable)
  with simulation_counts_zero_at_exit [OF pl this exit, of "''server3''"] exit show ?thesis
    by blast
qed

text \<open>
  C9 (invariant of the program). In every reachable state the table satisfies the
  invariant of \<open>LeastConnection\<close>, its keys are exactly the three configured servers (no
  worker ever passes an id that \<open>GetNextServer\<close> did not return, so nothing is inserted),
  the count of every server is the number of workers between their two notifications,
  and there are at most sixteen threads.
\<close>

theorem simulation_invariant:
  assumes "placement_ok pl" and "sim_reachable pl s"
  shows "LeastConnection_inv (sim_lb s) \<and> lc_pool (sim_lb s) = set main_servers
    \<and> (\<forall>k. lc_count (sim_lb s) k = open_requests k (sim_threads s))
    \<and> length (sim_threads s) \<le> 16"
  using sim_reachable_inv [OF assms]
  by (simp add: sim_inv_def inv_table_def inv_counts_def inv_main_length)

theorem simulation_invariant_witness:
  "placement_ok (place_front :: (server_id, size_t) placement)
   \<and> sim_reachable place_front example_working
   \<and> lc_pool (sim_lb example_working) = set main_servers
   \<and> lc_count (sim_lb example_working) ''server3'' = 1
   \<and> open_requests ''server3'' (sim_threads example_working) = 1"
  using simulation_invariant [OF _ example_reachable(2)] example_reachable(2)
  by (simp add: open_requests_def in_flight_def)

text \<open>
  C13 (mutual exclusion). In every reachable state at most one worker is inside a
  notification, it is the owner of the mutex, and \<open>main\<close> is not inside
  \<open>printConnections\<close> at that moment.
\<close>

theorem simulation_mutual_exclusion:
  assumes "placement_ok pl" and "sim_reachable pl s"
    and "i < length (sim_threads s)" and "j < length (sim_threads s)"
    and "in_critical (snd (sim_threads s ! i))" and "in_critical (snd (sim_threads s ! j))"
  shows "i = j \<and> sim_mtx s = Some (Worker i) \<and> sim_main s \<noteq> M_Printing"
  using sim_reachable_inv [OF assms(1,2)] assms(3-6)
  by (simp add: sim_inv_def inv_mutex_def)

theorem simulation_mutual_exclusion_witness:
  "placement_ok (place_front :: (server_id, size_t) placement)
   \<and> sim_reachable place_front example_locked
   \<and> in_critical (snd (sim_threads example_locked ! 0))
   \<and> sim_mtx example_locked = Some (Worker 0)
   \<and> sim_main example_locked \<noteq> M_Printing"
  using simulation_mutual_exclusion [OF _ example_reachable(1), of 0 0] example_reachable(1)
  by (simp add: in_critical_def)

text \<open>
  C14 (no deadlock and no undefined step). In every reachable state in which \<open>main\<close> has
  not returned some thread can take a step: the mutex never blocks every thread, a join
  never waits for a thread that cannot move, and \<open>GetNextServer\<close> never dereferences
  \<open>end()\<close>.
\<close>

theorem simulation_deadlock_free:
  assumes "placement_ok pl" and "sim_reachable pl s" and "sim_main s \<noteq> M_Exit"
  shows "\<exists>a s'. sim_exec pl a s = Some s'"
  using assms(1) sim_reachable_inv [OF assms(1,2)] assms(3) by (rule sim_enabled)

theorem simulation_deadlock_free_witness:
  "placement_ok (place_front :: (server_id, size_t) placement)
   \<and> sim_reachable place_front example_working
   \<and> sim_main example_working \<noteq> M_Exit
   \<and> (\<exists>a s'. sim_exec place_front a example_working = Some s')"
  using simulation_deadlock_free [OF _ example_reachable(2)] example_reachable(2)
  by simp

text \<open>
  C15 (termination). Every execution from the start has at most 130 steps, and \<open>main\<close>
  has returned exactly when 130 steps are done: three steps of \<open>main\<close>, four of the worker
  and one join for each of the sixteen requests, the end of the loop and the return.
  With the absence of deadlock, every schedule that keeps choosing a thread that can move
  ends the program, and \<open>main\<close> does not return before every worker has ended.
\<close>

theorem simulation_terminates:
  assumes "placement_ok pl" and "leastconnecitonalgo_main pl = Inr s0"
    and "sim_run pl as s0 = Some s"
  shows "length as \<le> 130 \<and> (sim_main s = M_Exit \<longleftrightarrow> length as = 130)"
proof -
  from assms(2) have "sim_reachable pl s0" by (rule sim_reachable.start)
  then have "sim_reachable pl s" using assms(3) by (rule sim_run_reachable)
  with assms(1) have "sim_inv s" by (rule sim_reachable_inv)
  then have "sim_measure s = 0 \<longleftrightarrow> sim_main s = M_Exit"
    by (simp add: sim_inv_def sim_measure_0)
  moreover from assms(1,2) have "sim_inv s0" by (rule sim_inv_start)
  ultimately show ?thesis
    using sim_run_measure [OF assms(1) _ assms(3)] sim_measure_start [OF assms(2)] by auto
qed

theorem simulation_terminates_witness:
  "placement_ok (place_front :: (server_id, size_t) placement)
   \<and> leastconnecitonalgo_main place_front = Inr example_start
   \<and> sim_run place_front [Main, Worker 0, Worker 0] example_start = Some example_working
   \<and> sim_main example_working \<noteq> M_Exit"
  using simulation_terminates [OF _ example_run(1,3)] example_run(1,3)
  by simp

text \<open>
  C28 (requests one after the other). Under the schedule in which every request is
  completed before the next selection, the program runs to the end, the table is the one
  the constructor built, every print shows it, and all sixteen requests went to the same
  server: with no request in flight the first minimum never changes.
\<close>

theorem simulation_sequential_run:
  assumes "placement_ok pl" and "leastconnecitonalgo_main pl = Inr s0"
  shows "\<exists>x s. sim_run pl sequential_schedule s0 = Some s \<and> sim_main s = M_Exit
    \<and> sim_lb s = sim_lb s0 \<and> sim_threads s = replicate 16 (x, Done)
    \<and> sim_out s = replicate 16 (printConnections (sim_lb s0))"
  using sim_sequential [OF assms] by force

theorem simulation_sequential_run_witness:
  "placement_ok (place_front :: (server_id, size_t) placement)
   \<and> leastconnecitonalgo_main place_front = Inr example_start
   \<and> (\<exists>x s. sim_run place_front sequential_schedule example_start = Some s
         \<and> sim_main s = M_Exit \<and> sim_threads s = replicate 16 (x, Done))"
  using simulation_sequential_run [OF _ example_run(1)] example_run(1)
  by auto

text \<open>
  C27 (what is printed). In every reachable state \<open>main\<close> has printed one table for each
  completed iteration of its loop, and every printed table lists each of the three
  configured servers once, with a count of at most 16.
\<close>

theorem simulation_output:
  assumes "placement_ok pl" and "sim_reachable pl s"
  shows "length (sim_out s) = sim_i s
    \<and> (\<forall>t \<in> set (sim_out s). fst ` set t = set main_servers \<and> distinct (map fst t)
          \<and> (\<forall>e \<in> set t. unat (snd e) \<le> 16))"
  using sim_reachable_inv [OF assms] sim_reachable_out [OF assms]
  by (simp add: sim_inv_def inv_main_def inv_out_def)

theorem simulation_output_witness:
  "placement_ok (place_front :: (server_id, size_t) placement)
   \<and> sim_reachable place_front example_printed
   \<and> length (sim_out example_printed) = sim_i example_printed
   \<and> fst ` set (hd (sim_out example_printed)) = set main_servers"
proof -
  note reach = example_reachable(4)
  from simulation_output [OF _ reach] reach show ?thesis by simp
qed

end
