(* ===== verification/Spec2Isabelle.thy ===== *)
theory Spec2Isabelle
  imports Interface RoundRobin WeightRoundRobin Unordered_Map LeastConnection Simulation
begin

text \<open>
  \<^bold>\<open>Server selection strategies of a load balancer.\<close>

  The repository holds two C++ files under \<open>src/LoadBalancingAlgorithm\<close>:
  \<open>roundrobinalgo.cpp\<close> (the classes \<open>ILoadBalancer\<close>, \<open>RoundRobin\<close>, \<open>WeightRoundRobin\<close> and a
  \<open>main\<close> that prints sixteen selections) and \<open>leastconnecitonalgo.cpp\<close> (a second
  \<open>ILoadBalancer\<close> with load notifications, the class \<open>LeastConnection\<close>, the worker
  \<open>simulate\<close> and a \<open>main\<close> that starts sixteen worker threads). A strategy object is
  constructed from a list of servers, rejects the empty list with an exception, and
  answers \<open>GetNextServer\<close> with the id of the server that takes the next request;
  \<open>LeastConnection\<close> is also told when a request starts and when it finishes.

  \<^bold>\<open>Theories.\<close>
  \<^item> \<open>LB_Prelude\<close>: \<open>size_t\<close> as \<open>64 word\<close>, the error values, the \<open>std::vector\<close>
    operations the classes call (\<open>vector_empty\<close>, \<open>vector_size\<close>, \<open>vector_subscript\<close>,
    \<open>vector_at\<close>), the cursor advance \<open>next_index\<close> for \<open>(i + 1) % size\<close>, and the lemmas
    that read word arithmetic as arithmetic on \<open>nat\<close> (collection \<open>lb_word\<close>).
  \<^item> \<open>Interface\<close>: the class \<open>ILoadBalancer\<close> of both files as a record of operations over
    a state type, \<open>ILoadBalancer_tracking\<close> its extension by the two notifications; the
    client loop \<open>calls\<close> (the \<open>for\<close> loop of \<open>main\<close> in \<open>roundrobinalgo.cpp\<close>), the events
    \<open>lb_event\<close> with \<open>notify\<close> and \<open>notify_all\<close>, and the contract \<open>implements\<close> with its
    consequences for runs (\<open>calls_add\<close>, \<open>calls_take\<close>, \<open>calls_period\<close>, \<open>implements_calls\<close>).
  \<^item> \<open>RoundRobin\<close>: the record \<open>RoundRobin\<close> (\<open>_servers\<close>, \<open>_curr_index\<close>),
    \<open>RoundRobin_new\<close> (the constructor), \<open>RoundRobin_GetNextServer\<close>, the invariant
    \<open>RoundRobin_inv\<close> and the cursor specification \<open>rr_spec\<close>. Lemmas: the invariant is
    established and preserved, one call refines \<open>rr_spec\<close>, \<open>k\<close> calls return
    \<open>pool ! ((c + i) mod n)\<close>, \<open>n\<close> calls restore the state.
  \<^item> \<open>WeightRoundRobin\<close>: the record \<open>WeightRoundRobin\<close> (\<open>_servers\<close>,
    \<open>_curr_server_index\<close>, \<open>_curr_server\<close>), \<open>WeightRoundRobin_new\<close>,
    \<open>WeightRoundRobin_advance\<close> (the body of the \<open>if\<close>) and \<open>WeightRoundRobin_GetNextServer\<close>.
    Lemmas: a block of equal answers while the loaded weight lasts, a segment of blocks, a
    full cycle from an exhausted state, the first cycle from the constructor, any number
    of cycles; the invariant and the budget bound. The weight is a \<open>size_t\<close> that is
    decremented after it is loaded, so \<open>effective_weight\<close> of 0 is \<open>2 ^ 64\<close>.
  \<^item> \<open>Unordered_Map\<close>: \<open>std::unordered_map\<close> as the list of its entries in iteration
    order, with the placement of a new key as a parameter (\<open>placement_ok\<close>); \<open>umap_find\<close>,
    \<open>umap_emplace\<close>, \<open>umap_subscript\<close>, \<open>umap_assign\<close>; \<open>std::min_element\<close> as the loop
    \<open>min_element_from\<close>, its specification \<open>first_min\<close> and its equality with the
    library's \<open>arg_min_list\<close>.
  \<^item> \<open>LeastConnection\<close>: the record \<open>LeastConnection\<close> (\<open>_connections\<close>),
    \<open>LeastConnection_new\<close>, \<open>LeastConnection_GetNextServer\<close>,
    \<open>LeastConnection_OnRequestStarted\<close>, \<open>LeastConnection_OnRequestFinished\<close>; the
    invariant \<open>LeastConnection_inv\<close>, the abstraction \<open>lc_abs\<close> to a finite map with the
    specifications \<open>started_spec\<close> and \<open>finished_spec\<close>, the reachable states
    \<open>lc_reachable\<close>. Lemmas: the constructor's table, selection of the first minimum, the
    notifications as map updates and as arithmetic on counts, preservation of the
    invariant along every reachable state, accounting along a trace of notifications.
  \<^item> \<open>Simulation\<close>: the program of \<open>leastconnecitonalgo.cpp\<close> as a transition system.
    The record \<open>simulation\<close> holds the object, the owner of \<open>_mtx\<close> (a worker or \<open>main\<close>),
    the vector of threads with the program point of each, and the loop counter, the
    position of the join loop, the program point and the output of \<open>main\<close>;
    \<open>simulate_step\<close> is one step of \<open>simulate\<close> in a thread, \<open>main_step\<close> one step of \<open>main\<close>
    (selection and thread start, acquisition of the mutex for the print, print and
    release, join of the next thread, return), \<open>lock\<close> and \<open>unlock\<close> are the \<open>lock_guard\<close>,
    \<open>printConnections\<close> the print, \<open>sim_exec\<close> the step of the thread the scheduler
    picks, \<open>sim_run\<close> a schedule, \<open>sim_reachable\<close> the reachable states. Lemmas: a case
    rule for the steps, four invariants (table, mutex, main loop, counts) with their
    preservation, the measure \<open>sim_measure\<close> that every step lowers by one, enabledness,
    and the run of the sequential schedule.
  \<^item> \<open>Spec2Isabelle\<close> (this theory): \<open>roundrobinalgo_main\<close>, the \<open>main\<close> of
    \<open>roundrobinalgo.cpp\<close> with its output as the list of printed lines, and the properties
    that span several classes.

  \<^bold>\<open>Conventions.\<close> An object is a record of its fields; a member function takes the
  record and returns the result with the updated record. A thrown exception and an
  execution without meaning in C++ are \<open>Inl\<close> values of \<open>error\<close>; a theorem that a call
  returns is stated as an equation with \<open>Inr\<close>. Arithmetic on \<open>size_t\<close> wraps modulo
  \<open>2 ^ 64\<close> as in the source. Every definition that models code computes; the
  specifications (\<open>first_min\<close>, \<open>implements\<close>, \<open>lc_reachable\<close>) are predicates that the
  theorems relate to the computing definitions.

  \<^bold>\<open>Bounds.\<close> No definition needs fuel: every loop of the program runs over a list or a
  given number of times and is a structural recursion; the executions of the threaded
  program are lists of scheduler choices, and \<open>sim_measure\<close> bounds them by 130 steps.
  \<open>vector_ok\<close> (fewer than \<open>2 ^ 64\<close> elements) is the one representation bound; it holds
  of every vector that fits in the address space, and the theorems about cursors assume
  it. The counts of \<open>LeastConnection\<close> wrap at \<open>2 ^ 64\<close>; the theorems about accounting
  say so or assume that the number of starts stays below it, and in the program the
  sixteen threads keep every count below 17.

  \<^bold>\<open>What is not modelled.\<close> Time: the sleeps and the durations drawn from \<open>std::rand\<close>
  select a schedule, and the theorems hold for all schedules. The text written to
  \<open>std::cout\<close> other than the selected ids and the printed tables. The read of the table
  by \<open>GetNextServer\<close> without the mutex is one step of the model: an execution in which
  that read overlaps a write of a worker is a data race without meaning in C++ and is
  not represented. A change of the iteration order of the hash table when it grows.
  The deleted copy and move operations of \<open>ILoadBalancer\<close>, which are compile-time
  constraints.
\<close>

section \<open>The program of roundrobinalgo.cpp\<close>

text \<open>
  \<open>main\<close> builds a \<open>WeightRoundRobin\<close> over \<open>server_list2\<close> and prints sixteen selections;
  the result is the list of lines it prints, or the error that ends it.
\<close>

definition server_list2 :: "weight_server_type list" where
  "server_list2 = [(''server1'', 5), (''server2'', 1), (''server3'', 1)]"

definition roundrobinalgo_main :: "server_id list result" where
  "roundrobinalgo_main =
     (case WeightRoundRobin_new server_list2 of
        Inl e \<Rightarrow> Inl e
      | Inr load_balancer2 \<Rightarrow>
          (case calls WeightRoundRobin_vtable 16 load_balancer2 of
             Inl e \<Rightarrow> Inl e
           | Inr (out, _) \<Rightarrow> Inr out))"

text \<open>The pool of a plain round robin as a weighted pool: every server with weight 1.\<close>

definition unit_weights :: "server_id list \<Rightarrow> weight_server_type list" where
  "unit_weights servers = map (\<lambda>x. (x, 1)) servers"

section \<open>Weights of one\<close>

lemma unit_weights_simps [simp]:
  "length (unit_weights xs) = length xs"
  "vector_ok (unit_weights xs) \<longleftrightarrow> vector_ok xs"
  "positive_weights (unit_weights xs)"
  "wrr_cycle (unit_weights xs) = xs"
  by (induction xs) (simp_all add: unit_weights_def vector_ok_def positive_weights_def wrr_cycle_def)

section \<open>Properties across the classes\<close>

text \<open>
  C12 (construction rejection). Each of the three constructors throws its
  \<open>std::runtime_error\<close> on the empty list, and returns an object on every list that is not
  empty, whatever the ids and the weights are (weights of zero included).
\<close>

theorem constructors_reject_empty:
  "RoundRobin_new [] = Inl (Runtime_Error ''empty server list'')
   \<and> WeightRoundRobin_new [] = Inl (Runtime_Error ''server list is empty'')
   \<and> LeastConnection_new pl [] = Inl (Runtime_Error ''server list is emply'')
   \<and> (\<exists>s. RoundRobin_new (x # xs) = Inr s)
   \<and> (\<exists>s. WeightRoundRobin_new (p # ps) = Inr s)
   \<and> (\<exists>s. LeastConnection_new pl (x # xs) = Inr s)"
  by (simp add: WeightRoundRobin_new_def LeastConnection_new_def vector_empty_def)

text \<open>
  C17 (the output of the program). \<open>main\<close> of \<open>roundrobinalgo.cpp\<close> ends without an
  exception and prints server1 five times, server2, server3, the same seven lines again,
  and server1 twice.
\<close>

theorem roundrobinalgo_main_output:
  "roundrobinalgo_main =
     Inr [''server1'', ''server1'', ''server1'', ''server1'', ''server1'', ''server2'', ''server3'',
          ''server1'', ''server1'', ''server1'', ''server1'', ''server1'', ''server2'', ''server3'',
          ''server1'', ''server1'']"
proof -
  have new: "WeightRoundRobin_new server_list2 =
      Inr \<lparr>wrr_servers = server_list2, wrr_curr_server_index = 0,
           wrr_curr_server = (''server1'', 5)\<rparr>"
    by (simp add: WeightRoundRobin_new_Inr server_list2_def)
  have ok: "vector_ok server_list2" and pos: "positive_weights server_list2"
    and cyc: "wrr_cycle server_list2 = [''server1'', ''server1'', ''server1'', ''server1'',
      ''server1'', ''server2'', ''server3'']"
    by (simp_all add: server_list2_def vector_ok_def positive_weights_def wrr_cycle_def
        replicate_numeral)
  have le: "16 \<le> Suc 16 * length (wrr_cycle server_list2)" by (simp add: cyc)
  from wrr_run [OF ok new pos, of 16] show ?thesis
    unfolding take_concat_replicate [OF le] roundrobinalgo_main_def new
    by (auto simp: cyc upt_rec)
qed

text \<open>
  C22 (weights of one). On a pool in which every weight is 1, \<open>WeightRoundRobin\<close> returns
  the same servers as \<open>RoundRobin\<close> on the ids, call by call, for any number of calls.
\<close>

theorem unit_weights_round_robin:
  assumes "vector_ok servers" and "RoundRobin_new servers = Inr r"
    and "WeightRoundRobin_new (unit_weights servers) = Inr w"
  shows "\<exists>r' w'. calls RoundRobin_vtable m r = Inr (rr_outputs servers 0 m, r')
    \<and> calls WeightRoundRobin_vtable m w = Inr (rr_outputs servers 0 m, w')"
proof -
  from assms(2,1) have "RoundRobin_inv r" by (rule RoundRobin_new_inv)
  from RoundRobin_calls [OF this, of m] assms(2)
  have "\<exists>r'. calls RoundRobin_vtable m r = Inr (rr_outputs servers 0 m, r')"
    by (auto simp: RoundRobin_new_Inr rr_abs_def)
  moreover from assms(1) have ok: "vector_ok (unit_weights servers)" by simp
  from assms(3) have "m \<le> Suc m * length (wrr_cycle (unit_weights servers))"
    by (rule wrr_run_length) simp
  from wrr_run [OF ok assms(3), of m] take_concat_replicate [OF this]
  have "\<exists>w'. calls WeightRoundRobin_vtable m w = Inr (rr_outputs servers 0 m, w')"
    by (simp add: rr_outputs_def)
  ultimately show ?thesis by blast
qed

theorem unit_weights_round_robin_witness:
  "vector_ok [''a'', ''b'']
   \<and> RoundRobin_new [''a'', ''b''] = Inr \<lparr>rr_servers = [''a'', ''b''], rr_curr_index = 0\<rparr>
   \<and> (\<exists>w'. calls WeightRoundRobin_vtable 3
          \<lparr>wrr_servers = [(''a'', 1), (''b'', 1)], wrr_curr_server_index = 0,
           wrr_curr_server = (''a'', 1)\<rparr> = Inr ([''a'', ''b'', ''a''], w'))"
  using unit_weights_round_robin [of "[''a'', ''b'']" "\<lparr>rr_servers = [''a'', ''b''], rr_curr_index = 0\<rparr>"
      "\<lparr>wrr_servers = [(''a'', 1), (''b'', 1)], wrr_curr_server_index = 0,
        wrr_curr_server = (''a'', 1)\<rparr>" 3]
  by (auto simp: vector_ok_def unit_weights_def WeightRoundRobin_new_Inr rr_outputs_def upt_rec)

end
